theory Spec2Isabelle
  imports Complex_Main "HOL-Library.Word" "HOL-Library.Signed_Division"
    "HOL-Library.List_Lexorder" "HOL-Library.Char_ord"
begin

unbundle bit_operations_syntax

section \<open>The membership ring of pkg/ring/ring.go\<close>

text \<open>
  A shallow embedding of the read side of the ring: the operation bitmap, fleet-wide
  replication sets, replica selection for a key, shuffle sharding with its subring cache,
  and auto-forget. Go maps that the code iterates are association lists (the list order
  stands for the iteration order, which Go leaves unspecified); maps that are only looked
  up are partial functions. Go's \<open>int\<close> is \<open>int\<close>, its \<open>/\<close> and \<open>%\<close> are
  \<open>sdiv\<close> and \<open>smod\<close> (truncation towards zero), and a division by zero, a nil
  dereference or an explicit \<open>panic\<close> is the error value \<open>Panic\<close>.
\<close>

subsection \<open>Instance states and operations\<close>

text \<open>
  Modelled from the spec: the declaration of the enumeration \<open>InstanceState\<close> is generated
  code that is not among the sources. The spec names its six states; their numbers are
  taken in the order in which \<open>NewOp\<close> enumerates them, with \<open>ACTIVE\<close> the zero value.
\<close>

datatype InstanceState = ACTIVE | LEAVING | PENDING | JOINING | LEFT | READONLY

fun state_num :: "InstanceState \<Rightarrow> nat" where
  "state_num ACTIVE = 0"
| "state_num LEAVING = 1"
| "state_num PENDING = 2"
| "state_num JOINING = 3"
| "state_num LEFT = 4"
| "state_num READONLY = 5"

text \<open>\<open>type Operation uint32\<close>: upper 16 bits encode extendReplicaSet, lower 16 bits the healthy states.\<close>

type_synonym Operation = "32 word"

text \<open>\<open>shouldExtendReplicaSet\<close> may be nil, hence the option.\<close>

definition NewOp :: "InstanceState list \<Rightarrow> (InstanceState \<Rightarrow> bool) option \<Rightarrow> Operation" where
  "NewOp healthyStates shouldExtendReplicaSet =
     (let op = fold (\<lambda>s op. op OR push_bit (state_num s) 1) healthyStates 0
      in case shouldExtendReplicaSet of
           None \<Rightarrow> op
         | Some f \<Rightarrow>
             fold (\<lambda>s op. if f s then op OR push_bit (state_num s) 0x10000 else op)
               [ACTIVE, LEAVING, PENDING, JOINING, LEFT, READONLY] op)"

definition IsInstanceInStateHealthy :: "Operation \<Rightarrow> InstanceState \<Rightarrow> bool" where
  "IsInstanceInStateHealthy op s \<longleftrightarrow> op AND push_bit (state_num s) 1 > 0"

definition ShouldExtendReplicaSetOnState :: "Operation \<Rightarrow> InstanceState \<Rightarrow> bool" where
  "ShouldExtendReplicaSetOnState op s \<longleftrightarrow> op AND push_bit (state_num s) 0x10000 > 0"

definition Write :: Operation where
  "Write = NewOp [ACTIVE] (Some (\<lambda>s. s \<noteq> ACTIVE))"

definition WriteNoExtend :: Operation where
  "WriteNoExtend = NewOp [ACTIVE] (Some (\<lambda>s. s = READONLY))"

definition Read :: Operation where
  "Read = NewOp [ACTIVE, PENDING, LEAVING, JOINING, READONLY]
     (Some (\<lambda>s. s \<noteq> ACTIVE \<and> s \<noteq> LEAVING \<and> s \<noteq> JOINING \<and> s \<noteq> READONLY))"

definition allStatesRingOperation :: Operation where
  "allStatesRingOperation = 0x0000ffff"

definition Reporting :: Operation where
  "Reporting = allStatesRingOperation"

subsection \<open>Descriptors, configuration and the ring\<close>

datatype error = ErrEmptyRing | ErrInstanceNotFound | ErrTooManyUnhealthyInstances
  | ErrInconsistentTokensInfo | Panic

text \<open>
  Modelled from the spec: the declarations of \<open>InstanceDesc\<close> and \<open>Desc\<close> are generated code
  that is not among the sources. The fields are the ones the spec lists and ring.go reads;
  the instance id is the key under which \<open>Ingesters\<close> holds the descriptor. Timestamps are
  unix seconds.
\<close>

record InstanceDesc =
  Addr :: string
  Timestamp :: int
  State :: InstanceState
  Tokens :: "32 word list"
  Zone :: string
  RegisteredTimestamp :: int

record Desc =
  Ingesters :: "(string \<times> InstanceDesc) list"

text \<open>Durations (\<open>time.Duration\<close>) and instants (\<open>time.Time\<close>) are counted in nanoseconds.\<close>

record Config =
  HeartbeatTimeout :: int
  ReplicationFactor :: int
  ZoneAwarenessEnabled :: bool
  ExcludedZones :: "string list"
  SubringCacheDisabled :: bool

record instanceInfo =
  InstanceID :: string
  InfoZone :: string

text \<open>
  The fields of \<open>Ring\<close> that the read path uses. \<open>ringDesc\<close> is a pointer and may be nil;
  \<open>ringTokensByZone\<close> is an association list, looked up with \<open>map_of\<close>.
  The subring cache is added by the extension \<open>CachingRing\<close> below, since a cached
  subring is itself a ring (built by \<open>shuffleShard\<close> with no cache of its own).
\<close>

record Ring =
  cfg :: Config
  ringDesc :: "Desc option"
  ringTokens :: "32 word list"
  ringTokensByZone :: "(string \<times> 32 word list) list"
  ringInstanceByToken :: "32 word \<rightharpoonup> instanceInfo"
  ringInstanceIdByAddr :: "string \<rightharpoonup> string"
  lastTopologyChange :: int
  ringZones :: "string list"
  previousRingZones :: "string list"

record ReplicationSet =
  Instances :: "InstanceDesc list"
  MaxErrors :: int
  MaxUnavailableZones :: int

text \<open>The zero value of \<open>InstanceDesc\<close>, which Go returns when a map has no entry for a key.\<close>

definition zeroInstanceDesc :: InstanceDesc where
  "zeroInstanceDesc =
     \<lparr>Addr = [], Timestamp = 0, State = ACTIVE, Tokens = [], Zone = [], RegisteredTimestamp = 0\<rparr>"

text \<open>\<open>d.Ingesters[id]\<close>\<close>

definition ingester :: "Desc \<Rightarrow> string \<Rightarrow> InstanceDesc" where
  "ingester d instanceID =
     (case map_of (Ingesters d) instanceID of Some instance \<Rightarrow> instance | None \<Rightarrow> zeroInstanceDesc)"

text \<open>
  Modelled from the spec: the health checks \<open>InstanceDesc.IsHealthy\<close> and \<open>Ring.IsHealthy\<close>
  are not among the sources. By the spec an instance is healthy for an operation when its
  state is in the operation's healthy set and \<open>now - max(heartbeat, L) \<le> HT\<close>, where \<open>L\<close> is
  the last update time of the KV store and a heartbeat timeout of 0 disables the staleness
  check. \<open>now\<close> and \<open>storageLastUpdate\<close> (what \<open>KVClient.LastUpdateTime\<close> returns) are
  instants in nanoseconds.
\<close>

definition InstanceDesc_IsHealthy :: "InstanceDesc \<Rightarrow> Operation \<Rightarrow> int \<Rightarrow> int \<Rightarrow> int \<Rightarrow> bool" where
  "InstanceDesc_IsHealthy instance op heartbeatTimeout storageLastUpdate now \<longleftrightarrow>
     IsInstanceInStateHealthy op (State instance) \<and>
     (heartbeatTimeout = 0 \<or>
      now - max (Timestamp instance * 1000000000) storageLastUpdate \<le> heartbeatTimeout)"

definition IsHealthy :: "'a Ring_scheme \<Rightarrow> int \<Rightarrow> InstanceDesc \<Rightarrow> Operation \<Rightarrow> int \<Rightarrow> bool" where
  "IsHealthy r now instance op storageLastUpdate \<longleftrightarrow>
     InstanceDesc_IsHealthy instance op (HeartbeatTimeout (cfg r)) storageLastUpdate now"

subsection \<open>GetAllHealthy and GetReplicationSetForOperation\<close>

definition GetAllHealthy :: "'a Ring_scheme \<Rightarrow> int \<Rightarrow> int \<Rightarrow> Operation \<Rightarrow> error + ReplicationSet" where
  "GetAllHealthy r now storageLastUpdate op =
     (case ringDesc r of
        None \<Rightarrow> Inl ErrEmptyRing
      | Some d \<Rightarrow>
          if length (Ingesters d) = 0 then Inl ErrEmptyRing
          else
            let instances =
                  fold (\<lambda>(_, instance) instances.
                          if IsHealthy r now instance op storageLastUpdate
                          then instances @ [instance] else instances)
                    (Ingesters d) []
            in Inr \<lparr>Instances = instances, MaxErrors = 0, MaxUnavailableZones = 0\<rparr>)"

text \<open>\<open>zoneFailures\<close> is a \<open>map[string]struct{}\<close>, that is a set of zone names.\<close>

definition GetReplicationSetForOperation ::
    "'a Ring_scheme \<Rightarrow> int \<Rightarrow> int \<Rightarrow> Operation \<Rightarrow> error + ReplicationSet" where
  "GetReplicationSetForOperation r now storageLastUpdate op =
     (case ringDesc r of
        None \<Rightarrow> Inl ErrEmptyRing
      | Some d \<Rightarrow>
          if length (ringTokens r) = 0 then Inl ErrEmptyRing
          else
            let (healthyInstances, zoneFailures) =
                  fold (\<lambda>(_, instance) (healthyInstances, zoneFailures).
                          if IsHealthy r now instance op storageLastUpdate
                          then (healthyInstances @ [instance], zoneFailures)
                          else (healthyInstances, insert (Zone instance) zoneFailures))
                    (Ingesters d) ([], {})
            in
            if ZoneAwarenessEnabled (cfg r) then
              let numReplicatedZones = min (int (length (ringZones r))) (ReplicationFactor (cfg r));
                  minSuccessZones = (numReplicatedZones sdiv 2) + 1;
                  maxUnavailableZones = minSuccessZones - 1
              in
              if int (card zoneFailures) > maxUnavailableZones then Inl ErrTooManyUnhealthyInstances
              else
                let healthyInstances =
                      (if card zoneFailures > 0
                       then filter (\<lambda>instance. Zone instance \<notin> zoneFailures) healthyInstances
                       else healthyInstances)
                in Inr \<lparr>Instances = healthyInstances, MaxErrors = 0,
                         MaxUnavailableZones = maxUnavailableZones - int (card zoneFailures)\<rparr>
            else
              let numRequired = int (length (Ingesters d));
                  numRequired = (if numRequired < ReplicationFactor (cfg r)
                                 then ReplicationFactor (cfg r) else numRequired);
                  numRequired = numRequired - ReplicationFactor (cfg r) sdiv 2
              in
              if int (length healthyInstances) < numRequired then Inl ErrTooManyUnhealthyInstances
              else Inr \<lparr>Instances = healthyInstances,
                       MaxErrors = int (length healthyInstances) - numRequired,
                       MaxUnavailableZones = 0\<rparr>)"

subsection \<open>AutoForgetFromRing\<close>

text \<open>\<open>time.Unix(sec, 0)\<close> as an instant in nanoseconds.\<close>

definition Unix :: "int \<Rightarrow> int" where
  "Unix sec = sec * 1000000000"

text \<open>\<open>Time.Sub\<close> saturates at the bounds of \<open>time.Duration\<close>, a signed 64-bit count of nanoseconds.\<close>

definition saturate :: "int \<Rightarrow> int" where
  "saturate d = (if d < - (2 ^ 63) then - (2 ^ 63) else if d > 2 ^ 63 - 1 then 2 ^ 63 - 1 else d)"

text \<open>\<open>time.Since(t)\<close> when the clock reads \<open>now\<close>.\<close>

definition Since :: "int \<Rightarrow> int \<Rightarrow> int" where
  "Since now t = saturate (now - t)"

text \<open>
  Modelled from the spec: \<open>RemoveIngester\<close> is not among the sources; by the spec auto-forget
  removes the instance from the descriptor, that is \<open>delete(d.Ingesters, id)\<close>.
\<close>

definition RemoveIngester :: "Desc \<Rightarrow> string \<Rightarrow> Desc" where
  "RemoveIngester d id' = d\<lparr>Ingesters := filter (\<lambda>(k, _). k \<noteq> id') (Ingesters d)\<rparr>"

text \<open>
  The body of the loop of \<open>AutoForgetFromRing\<close>. Go visits every entry of the map once:
  the only entry deleted while ranging is the current one. The log line is not modelled.
\<close>

definition AutoForget_body :: "int \<Rightarrow> int \<Rightarrow> string \<times> InstanceDesc \<Rightarrow> Desc \<Rightarrow> Desc" where
  "AutoForget_body forgetPeriod now =
     (\<lambda>(id', instance) d.
        let lastHeartbeat = Unix (Timestamp instance)
        in if Since now lastHeartbeat > forgetPeriod then RemoveIngester d id' else d)"

text \<open>A nil descriptor is dereferenced by the \<open>range\<close>.\<close>

definition AutoForgetFromRing :: "Desc option \<Rightarrow> int \<Rightarrow> int \<Rightarrow> error + Desc" where
  "AutoForgetFromRing ringDesc' forgetPeriod now =
     (case ringDesc' of
        None \<Rightarrow> Inl Panic
      | Some d \<Rightarrow> Inr (fold (AutoForget_body forgetPeriod now) (Ingesters d) d))"

text \<open>The test of the loop, and the keys it removes among given entries.\<close>

definition forgotten :: "int \<Rightarrow> int \<Rightarrow> InstanceDesc \<Rightarrow> bool" where
  "forgotten forgetPeriod now instance \<longleftrightarrow> Since now (Unix (Timestamp instance)) > forgetPeriod"

definition forgotten_keys :: "int \<Rightarrow> int \<Rightarrow> (string \<times> InstanceDesc) list \<Rightarrow> string set" where
  "forgotten_keys fp now xs = {k. \<exists>i. (k, i) \<in> set xs \<and> forgotten fp now i}"

subsection \<open>Get\<close>

text \<open>
  Modelled from the spec: \<open>searchToken\<close> is not among the sources. By the spec it returns the
  smallest index \<open>i\<close> such that \<open>tokens[i] > key\<close>, else 0.
\<close>

definition searchToken :: "32 word list \<Rightarrow> 32 word \<Rightarrow> nat" where
  "searchToken tokens key =
     (let i = length (takeWhile (\<lambda>t. \<not> t > key) tokens)
      in if i \<ge> length tokens then 0 else i)"

text \<open>Go's \<open>int\<close> is 64 bits wide here; \<open>replicationFactor++\<close> wraps around.\<close>

definition wrap64 :: "int \<Rightarrow> int" where
  "wrap64 x = (x + 2 ^ 63) mod 2 ^ 64 - 2 ^ 63"

text \<open>
  Modelled from the spec: the replication strategy (\<open>r.strategy.Filter\<close>) is not among the
  sources. By the spec (4.2) it keeps the healthy candidates, fails with
  \<open>TooManyUnhealthy\<close> when they are fewer than \<open>min_required_success = RF/2 + 1\<close>, and
  returns \<open>max_errors = len(candidates) - min_required_success\<close>.
\<close>

definition Filter ::
    "InstanceDesc list \<Rightarrow> Operation \<Rightarrow> int \<Rightarrow> int \<Rightarrow> bool \<Rightarrow> int \<Rightarrow> int \<Rightarrow> error + (InstanceDesc list \<times> int)" where
  "Filter ingesters op replicationFactor heartbeatTimeout zoneAwarenessEnabled storageLastUpdate now =
     (let minSuccess = (replicationFactor sdiv 2) + 1;
          healthy = filter (\<lambda>instance. InstanceDesc_IsHealthy instance op heartbeatTimeout storageLastUpdate now) ingesters
      in if int (length healthy) < minSuccess then Inl ErrTooManyUnhealthyInstances
         else Inr (healthy, int (length ingesters) - minSuccess))"

text \<open>
  The local variables of the loop of \<open>Get\<close>: \<open>i\<close>, \<open>iterations\<close>, \<open>replicationFactor\<close>,
  \<open>zonesWithExtraInstance\<close>, \<open>distinctHosts\<close>, \<open>numOfInstanceByZone\<close> and \<open>instances\<close>.
\<close>

record GetVars =
  g_i :: nat
  g_iterations :: nat
  g_replicationFactor :: int
  g_zonesWithExtraInstance :: int
  g_distinctHosts :: "string list"
  g_numOfInstanceByZone :: "string \<rightharpoonup> int"
  g_instances :: "InstanceDesc list"

text \<open>\<open>numOfInstanceByZone[zone]\<close>: a missing key reads as 0.\<close>

definition zoneCount :: "(string \<rightharpoonup> int) \<Rightarrow> string \<Rightarrow> int" where
  "zoneCount m zone = (case m zone of None \<Rightarrow> 0 | Some n \<Rightarrow> n)"

text \<open>
  One iteration of the loop of \<open>Get\<close>, up to the post statement \<open>i++\<close>. A \<open>continue\<close> returns
  the variables as they are.
\<close>

definition Get_body :: "'a Ring_scheme \<Rightarrow> Desc \<Rightarrow> Operation \<Rightarrow> int \<Rightarrow> GetVars \<Rightarrow> error + GetVars" where
  "Get_body r d op maxInstancePerZone v =
     (let iterations = g_iterations v + 1;
          i = g_i v mod length (ringTokens r);
          token = ringTokens r ! i;
          v = v\<lparr>g_i := i, g_iterations := iterations\<rparr>
      in case ringInstanceByToken r token of
           None \<Rightarrow> Inl ErrInconsistentTokensInfo
         | Some info \<Rightarrow>
             if InstanceID info \<in> set (g_distinctHosts v) then Inr v
             else if ZoneAwarenessEnabled (cfg r) \<and> InfoZone info \<noteq> [] \<and>
                     zoneCount (g_numOfInstanceByZone v) (InfoZone info)
                       \<ge> (if g_zonesWithExtraInstance v > 0
                           then maxInstancePerZone + 1 else maxInstancePerZone)
             then Inr v
             else
               let distinctHosts = g_distinctHosts v @ [InstanceID info];
                   instance = ingester d (InstanceID info);
                   instances = g_instances v @ [instance]
               in
               if ShouldExtendReplicaSetOnState op (State instance)
               then Inr (v\<lparr>g_replicationFactor := wrap64 (g_replicationFactor v + 1),
                          g_distinctHosts := distinctHosts, g_instances := instances\<rparr>)
               else if ZoneAwarenessEnabled (cfg r) \<and> InfoZone info \<noteq> [] then
                 (case g_numOfInstanceByZone v (InfoZone info) of
                    None \<Rightarrow>
                      Inr (v\<lparr>g_distinctHosts := distinctHosts,
                             g_numOfInstanceByZone := (g_numOfInstanceByZone v)(InfoZone info \<mapsto> 1),
                             g_instances := instances\<rparr>)
                  | Some numOfInstance \<Rightarrow>
                      if numOfInstance < maxInstancePerZone
                      then Inr (v\<lparr>g_distinctHosts := distinctHosts,
                                 g_numOfInstanceByZone :=
                                   (g_numOfInstanceByZone v)(InfoZone info \<mapsto> numOfInstance + 1),
                                 g_instances := instances\<rparr>)
                      else Inr (v\<lparr>g_zonesWithExtraInstance := g_zonesWithExtraInstance v - 1,
                                 g_distinctHosts := distinctHosts,
                                 g_numOfInstanceByZone :=
                                   (g_numOfInstanceByZone v)(InfoZone info \<mapsto> numOfInstance + 1),
                                 g_instances := instances\<rparr>))
               else Inr (v\<lparr>g_distinctHosts := distinctHosts, g_instances := instances\<rparr>))"

lemma Get_body_iterations:
  "Get_body r d op m v = Inr v' \<Longrightarrow> g_iterations v' = g_iterations v + 1"
  by (auto simp: Get_body_def Let_def split: option.splits if_splits)

text \<open>\<open>for i := start; len(distinctHosts) < replicationFactor && iterations < len(r.ringTokens); i++\<close>\<close>

function Get_loop :: "'a Ring_scheme \<Rightarrow> Desc \<Rightarrow> Operation \<Rightarrow> int \<Rightarrow> GetVars \<Rightarrow> error + GetVars" where
  "Get_loop r d op maxInstancePerZone v =
     (if int (length (g_distinctHosts v)) < g_replicationFactor v \<and>
         g_iterations v < length (ringTokens r)
      then case Get_body r d op maxInstancePerZone v of
             Inl e \<Rightarrow> Inl e
           | Inr v' \<Rightarrow> Get_loop r d op maxInstancePerZone (v'\<lparr>g_i := g_i v' + 1\<rparr>)
      else Inr v)"
  by pat_completeness auto
termination
  by (relation "measure (\<lambda>(r, d, op, m, v). length (ringTokens r) - g_iterations v)")
     (auto dest: Get_body_iterations)

declare Get_loop.simps [simp del]

text \<open>
  \<open>Get\<close> up to the call of the replication strategy: the candidates \<open>instances\<close> with their
  ids \<open>distinctHosts\<close>. The buffers are emptied first, and \<open>resetZoneMap\<close> (not among the
  sources) returns an empty map. The division by \<open>len(r.ringZones)\<close> panics on zero.
\<close>

definition Get_instances :: "'a Ring_scheme \<Rightarrow> 32 word \<Rightarrow> Operation \<Rightarrow> error + (InstanceDesc list \<times> string list)" where
  "Get_instances r key op =
     (case ringDesc r of
        None \<Rightarrow> Inl ErrEmptyRing
      | Some d \<Rightarrow>
          if length (ringTokens r) = 0 then Inl ErrEmptyRing
          else if length (ringZones r) = 0 then Inl Panic
          else
            let replicationFactor = ReplicationFactor (cfg r);
                start = searchToken (ringTokens r) key;
                maxInstancePerZone = replicationFactor sdiv int (length (ringZones r));
                zonesWithExtraInstance = replicationFactor smod int (length (ringZones r))
            in case Get_loop r d op maxInstancePerZone
                      \<lparr>g_i = start, g_iterations = 0, g_replicationFactor = replicationFactor,
                       g_zonesWithExtraInstance = zonesWithExtraInstance, g_distinctHosts = [],
                       g_numOfInstanceByZone = Map.empty, g_instances = []\<rparr> of
                 Inl e \<Rightarrow> Inl e
               | Inr v \<Rightarrow> Inr (g_instances v, g_distinctHosts v))"

definition Get :: "'a Ring_scheme \<Rightarrow> int \<Rightarrow> int \<Rightarrow> 32 word \<Rightarrow> Operation \<Rightarrow> error + ReplicationSet" where
  "Get r now storageLastUpdate key op =
     (case Get_instances r key op of
        Inl e \<Rightarrow> Inl e
      | Inr (instances, distinctHosts) \<Rightarrow>
          (case Filter instances op (ReplicationFactor (cfg r)) (HeartbeatTimeout (cfg r))
                  (ZoneAwarenessEnabled (cfg r)) storageLastUpdate now of
             Inl e \<Rightarrow> Inl e
           | Inr (healthyInstances, maxFailure) \<Rightarrow>
               Inr \<lparr>Instances = healthyInstances, MaxErrors = maxFailure, MaxUnavailableZones = 0\<rparr>))"

text \<open>Invariants of the loop of \<open>Get\<close>, and the candidates of a zone that did not extend the replica set.\<close>

definition hosts_inv :: "Desc \<Rightarrow> GetVars \<Rightarrow> bool" where
  "hosts_inv d v \<longleftrightarrow>
     distinct (g_distinctHosts v) \<and> g_instances v = map (ingester d) (g_distinctHosts v)"

definition notExtending :: "Operation \<Rightarrow> string \<Rightarrow> InstanceDesc list \<Rightarrow> InstanceDesc list" where
  "notExtending op zone instances =
     filter (\<lambda>i. Zone i = zone \<and> \<not> ShouldExtendReplicaSetOnState op (State i)) instances"

text \<open>
  The zone recorded with a token is the zone of the descriptor of the instance that owns
  the token, as in views derived from the descriptor.
\<close>

definition zones_consistent :: "'a Ring_scheme \<Rightarrow> bool" where
  "zones_consistent r \<longleftrightarrow>
     (\<forall>t \<in> set (ringTokens r).
        case ringInstanceByToken r t of
          None \<Rightarrow> True
        | Some info \<Rightarrow> Zone (ingester (the (ringDesc r)) (InstanceID info)) = InfoZone info)"

definition zone_inv :: "Operation \<Rightarrow> int \<Rightarrow> GetVars \<Rightarrow> bool" where
  "zone_inv op zwe0 v \<longleftrightarrow>
     g_zonesWithExtraInstance v \<le> zwe0 \<and>
     (\<forall>z. z \<noteq> [] \<longrightarrow>
        zoneCount (g_numOfInstanceByZone v) z = int (length (notExtending op z (g_instances v))) \<and>
        zoneCount (g_numOfInstanceByZone v) z \<le> 1)"

subsection \<open>Shuffle sharding\<close>

text \<open>
  Modelled from the spec: \<open>shardUtil.ShuffleShardExpectedInstancesPerZone\<close> is not among the
  sources; by the spec it is the ceiling of \<open>size / |ringZones|\<close>.
\<close>

definition ShuffleShardExpectedInstancesPerZone :: "int \<Rightarrow> int \<Rightarrow> int" where
  "ShuffleShardExpectedInstancesPerZone shardSize numZones =
     \<lceil>real_of_int shardSize / real_of_int numZones\<rceil>"

text \<open>
  Modelled from the spec: the derived views of a descriptor (\<open>GetTokens\<close>,
  \<open>getTokensByZone\<close>, \<open>getZones\<close>, \<open>getTokensInfo\<close>, \<open>getInstancesByAddr\<close>) are not among the
  sources. By the spec \<open>ringTokens\<close> is the union of every instance's tokens, sorted
  ascending; \<open>ringTokensByZone\<close> maps a zone to that zone's sorted tokens; \<open>ringZones\<close> is the
  sorted list of the zones with at least one instance; \<open>ringInstanceByToken\<close> maps a token to
  the id and zone of its instance; \<open>ringInstanceIdByAddr\<close> maps an address to an instance id.
\<close>

definition GetTokens :: "Desc \<Rightarrow> 32 word list" where
  "GetTokens d = sort (concat (map (\<lambda>(_, instance). Tokens instance) (Ingesters d)))"

definition getTokensByZone :: "Desc \<Rightarrow> (string \<times> 32 word list) list" where
  "getTokensByZone d =
     map (\<lambda>zone. (zone, sort (concat (map (\<lambda>(_, instance). Tokens instance)
                                 (filter (\<lambda>(_, instance). Zone instance = zone) (Ingesters d))))))
       (remdups (map (\<lambda>(_, instance). Zone instance) (Ingesters d)))"

definition getZones :: "(string \<times> 32 word list) list \<Rightarrow> string list" where
  "getZones tokens = sort (map fst tokens)"

definition getTokensInfo :: "Desc \<Rightarrow> (32 word \<rightharpoonup> instanceInfo)" where
  "getTokensInfo d =
     map_of (concat (map (\<lambda>(instanceID, instance).
                            map (\<lambda>token. (token, \<lparr>InstanceID = instanceID, InfoZone = Zone instance\<rparr>))
                              (Tokens instance))
                       (Ingesters d)))"

definition getInstancesByAddr :: "Desc \<Rightarrow> (string \<rightharpoonup> string)" where
  "getInstancesByAddr d = map_of (map (\<lambda>(instanceID, instance). (Addr instance, instanceID)) (Ingesters d))"

text \<open>The cache key: \<open>identifier\<close>, \<open>shardSize\<close> and \<open>zoneStableSharding\<close>.\<close>

datatype subringCacheKey = subringCacheKey string int bool

text \<open>
  A ring with its cache of shuffle-sharded subrings. The cache is a map that may be nil
  (when nil, no caching is done). A subring is a plain \<open>Ring\<close>.
\<close>

record CachingRing = Ring +
  shuffledSubringCache :: "(subringCacheKey \<rightharpoonup> Ring) option"

text \<open>
  The innermost loop of \<open>shuffleShard\<close>,
  \<open>for p := start; iterations < len(tokens); p++\<close>, which returns the shard and \<open>found\<close>.
  The shard is a map from instance ids to descriptors; the model keeps its entries in the
  order in which they were added. \<open>panic(ErrInconsistentTokensInfo)\<close> and the dereference of
  a nil \<open>r.ringDesc\<close> are the error \<open>Panic\<close>.
\<close>

function shuffleShard_walk ::
    "'a Ring_scheme \<Rightarrow> int \<Rightarrow> int \<Rightarrow> 32 word list \<Rightarrow> nat \<Rightarrow> nat
      \<Rightarrow> (string \<times> InstanceDesc) list \<Rightarrow> error + ((string \<times> InstanceDesc) list \<times> bool)" where
  "shuffleShard_walk r lookbackPeriod lookbackUntil tokens p iterations shard =
     (if iterations < length tokens then
        (let iterations = iterations + 1;
             p = p mod length tokens
         in case ringInstanceByToken r (tokens ! p) of
              None \<Rightarrow> Inl Panic
            | Some info \<Rightarrow>
                if map_of shard (InstanceID info) \<noteq> None
                then shuffleShard_walk r lookbackPeriod lookbackUntil tokens (p + 1) iterations shard
                else
                  (case ringDesc r of
                     None \<Rightarrow> Inl Panic
                   | Some d \<Rightarrow>
                       let instanceID = InstanceID info;
                           instance = ingester d instanceID;
                           shard = shard @ [(instanceID, instance)]
                       in if (lookbackPeriod > 0 \<and> RegisteredTimestamp instance \<ge> lookbackUntil)
                             \<or> State instance = READONLY
                          then shuffleShard_walk r lookbackPeriod lookbackUntil tokens (p + 1) iterations shard
                          else Inr (shard, True)))
      else Inr (shard, False))"
  by pat_completeness auto
termination
  by (relation "measure (\<lambda>(r, lp, lu, tokens, p, iterations, shard). length tokens - iterations)") auto

declare shuffleShard_walk.simps [simp del]

text \<open>
  \<open>for i := 0; i < finalInstancesPerZone; i++\<close>. The generator \<open>random\<close> is seeded from
  \<open>(identifier, zone)\<close> and read once per iteration, so the value read in iteration \<open>i\<close> is
  a function \<open>draw identifier zone i\<close>; \<open>draw\<close> stands for \<open>math/rand\<close> and
  \<open>shardUtil.ShuffleShardSeed\<close>, which are not among the sources.
\<close>

function shuffleShard_zone ::
    "(string \<Rightarrow> string \<Rightarrow> nat \<Rightarrow> 32 word) \<Rightarrow> 'a Ring_scheme \<Rightarrow> string \<Rightarrow> int \<Rightarrow> int
      \<Rightarrow> string \<Rightarrow> 32 word list \<Rightarrow> int \<Rightarrow> nat
      \<Rightarrow> (string \<times> InstanceDesc) list \<Rightarrow> error + (string \<times> InstanceDesc) list" where
  "shuffleShard_zone draw r identifier lookbackPeriod lookbackUntil zone tokens finalInstancesPerZone i shard =
     (if int i < finalInstancesPerZone then
        (let start = searchToken tokens (draw identifier zone i)
         in case shuffleShard_walk r lookbackPeriod lookbackUntil tokens start 0 shard of
              Inl e \<Rightarrow> Inl e
            | Inr (shard, found) \<Rightarrow>
                if \<not> found then Inr shard
                else shuffleShard_zone draw r identifier lookbackPeriod lookbackUntil zone tokens
                       finalInstancesPerZone (i + 1) shard)
      else Inr shard)"
  by pat_completeness auto
termination
  by (relation "measure (\<lambda>(draw, r, ident, lp, lu, zone, tokens, n, i, shard). nat (n - int i))") auto

declare shuffleShard_zone.simps [simp del]

text \<open>\<open>for _, zone := range actualZones\<close>\<close>

fun shuffleShard_zones ::
    "(string \<Rightarrow> string \<Rightarrow> nat \<Rightarrow> 32 word) \<Rightarrow> 'a Ring_scheme \<Rightarrow> string \<Rightarrow> int \<Rightarrow> int
      \<Rightarrow> int \<Rightarrow> int \<Rightarrow> string list
      \<Rightarrow> (string \<times> InstanceDesc) list \<Rightarrow> error + (string \<times> InstanceDesc) list" where
  "shuffleShard_zones draw r identifier lookbackPeriod lookbackUntil numInstancesPerZone
       zonesWithExtraInstance [] shard = Inr shard"
| "shuffleShard_zones draw r identifier lookbackPeriod lookbackUntil numInstancesPerZone
       zonesWithExtraInstance (zone # actualZones) shard =
     (let tokens = (if ZoneAwarenessEnabled (cfg r)
                    then (case map_of (ringTokensByZone r) zone of None \<Rightarrow> [] | Some ts \<Rightarrow> ts)
                    else ringTokens r);
          finalInstancesPerZone =
            (if zonesWithExtraInstance > 0 then numInstancesPerZone + 1 else numInstancesPerZone);
          zonesWithExtraInstance =
            (if zonesWithExtraInstance > 0 then zonesWithExtraInstance - 1 else zonesWithExtraInstance)
      in case shuffleShard_zone draw r identifier lookbackPeriod lookbackUntil zone tokens
                finalInstancesPerZone 0 shard of
           Inl e \<Rightarrow> Inl e
         | Inr shard \<Rightarrow>
             shuffleShard_zones draw r identifier lookbackPeriod lookbackUntil numInstancesPerZone
               zonesWithExtraInstance actualZones shard)"

text \<open>
  \<open>lookbackUntil\<close> is \<open>now.Add(-lookbackPeriod).Unix()\<close>, in seconds. The zone-stable division
  by \<open>len(r.ringZones)\<close> panics on zero. The subring has no cache and no address index.
\<close>

definition shuffleShard ::
    "(string \<Rightarrow> string \<Rightarrow> nat \<Rightarrow> 32 word) \<Rightarrow> 'a Ring_scheme \<Rightarrow> string \<Rightarrow> int \<Rightarrow> int \<Rightarrow> int \<Rightarrow> bool
      \<Rightarrow> error + Ring" where
  "shuffleShard draw r identifier size' lookbackPeriod now zoneStableSharding =
     (let lookbackUntil = (now - lookbackPeriod) div 1000000000
      in if ZoneAwarenessEnabled (cfg r) \<and> zoneStableSharding \<and> length (ringZones r) = 0
         then Inl Panic
         else
           let (numInstancesPerZone, actualZones, zonesWithExtraInstance) =
                 (if ZoneAwarenessEnabled (cfg r) then
                    (if zoneStableSharding
                     then (size' sdiv int (length (ringZones r)), ringZones r,
                           size' smod int (length (ringZones r)))
                     else (ShuffleShardExpectedInstancesPerZone size' (int (length (ringZones r))),
                           ringZones r, 0))
                  else (size', [[]], 0))
           in case shuffleShard_zones draw r identifier lookbackPeriod lookbackUntil
                     numInstancesPerZone zonesWithExtraInstance actualZones [] of
                Inl e \<Rightarrow> Inl e
              | Inr shard \<Rightarrow>
                  let shardDesc = \<lparr>Ingesters = shard\<rparr>;
                      shardTokensByZone = getTokensByZone shardDesc
                  in Inr \<lparr>cfg = cfg r,
                          ringDesc = Some shardDesc,
                          ringTokens = GetTokens shardDesc,
                          ringTokensByZone = shardTokensByZone,
                          ringInstanceByToken = ringInstanceByToken r,
                          ringInstanceIdByAddr = Map.empty,
                          lastTopologyChange = lastTopologyChange r,
                          ringZones = getZones shardTokensByZone,
                          previousRingZones = []\<rparr>)"

text \<open>
  The lookup returns the cached subring, if any, and the ring: the cached subring is
  patched in place, so the entry of the cache changes with it.
\<close>

definition getCachedShuffledSubring ::
    "CachingRing \<Rightarrow> string \<Rightarrow> int \<Rightarrow> bool \<Rightarrow> error + (Ring option \<times> CachingRing)" where
  "getCachedShuffledSubring r identifier size' zoneStableSharding =
     (if SubringCacheDisabled (cfg r) then Inr (None, r)
      else
        case (case shuffledSubringCache r of
                None \<Rightarrow> None
              | Some cache \<Rightarrow> cache (subringCacheKey identifier size' zoneStableSharding)) of
          None \<Rightarrow> Inr (None, r)
        | Some cached \<Rightarrow>
            (case ringDesc cached of
               None \<Rightarrow> Inl Panic
             | Some cachedDesc \<Rightarrow>
                 if Ingesters cachedDesc \<noteq> [] \<and> ringDesc r = None then Inl Panic
                 else
                   let cachedDesc =
                         cachedDesc\<lparr>Ingesters :=
                           map (\<lambda>(name, cachedIng).
                                  let ing = ingester (the (ringDesc r)) name
                                  in (name, cachedIng\<lparr>State := State ing, Timestamp := Timestamp ing\<rparr>))
                             (Ingesters cachedDesc)\<rparr>;
                       cached = cached\<lparr>ringDesc := Some cachedDesc\<rparr>
                   in Inr (Some cached,
                           r\<lparr>shuffledSubringCache :=
                               map_option (\<lambda>cache. cache(subringCacheKey identifier size' zoneStableSharding \<mapsto> cached))
                                 (shuffledSubringCache r)\<rparr>)))"

definition setCachedShuffledSubring ::
    "CachingRing \<Rightarrow> string \<Rightarrow> int \<Rightarrow> bool \<Rightarrow> Ring \<Rightarrow> CachingRing" where
  "setCachedShuffledSubring r identifier size' zoneStableSharding subring =
     (if SubringCacheDisabled (cfg r) then r
      else
        case shuffledSubringCache r of
          None \<Rightarrow> r
        | Some cache \<Rightarrow>
            if lastTopologyChange r = lastTopologyChange subring
            then r\<lparr>shuffledSubringCache :=
                     Some (cache(subringCacheKey identifier size' zoneStableSharding \<mapsto> subring))\<rparr>
            else r)"

text \<open>
  Modelled from the spec: \<open>InstancesCount\<close> is not among the sources; it returns the number
  of instances in the ring, \<open>len(r.ringDesc.Ingesters)\<close>.
\<close>

definition InstancesCount :: "'a Ring_scheme \<Rightarrow> error + int" where
  "InstancesCount r =
     (case ringDesc r of None \<Rightarrow> Inl Panic | Some d \<Rightarrow> Inr (int (length (Ingesters d))))"

text \<open>The result is the subring and the ring with its cache updated.\<close>

definition shuffleShardWithCache ::
    "(string \<Rightarrow> string \<Rightarrow> nat \<Rightarrow> 32 word) \<Rightarrow> int \<Rightarrow> CachingRing \<Rightarrow> string \<Rightarrow> int \<Rightarrow> bool
      \<Rightarrow> error + (Ring \<times> CachingRing)" where
  "shuffleShardWithCache draw now r identifier size' zoneStableSharding =
     (if size' \<le> 0 then Inr (Ring.truncate r, r)
      else
        case InstancesCount r of
          Inl e \<Rightarrow> Inl e
        | Inr count \<Rightarrow>
            if count \<le> size' then Inr (Ring.truncate r, r)
            else
              (case getCachedShuffledSubring r identifier size' zoneStableSharding of
                 Inl e \<Rightarrow> Inl e
               | Inr (Some cached, r) \<Rightarrow> Inr (cached, r)
               | Inr (None, r) \<Rightarrow>
                   (case shuffleShard draw r identifier size' 0 now zoneStableSharding of
                      Inl e \<Rightarrow> Inl e
                    | Inr result \<Rightarrow>
                        Inr (result, setCachedShuffledSubring r identifier size' zoneStableSharding result))))"

definition ShuffleShard ::
    "(string \<Rightarrow> string \<Rightarrow> nat \<Rightarrow> 32 word) \<Rightarrow> int \<Rightarrow> CachingRing \<Rightarrow> string \<Rightarrow> int
      \<Rightarrow> error + (Ring \<times> CachingRing)" where
  "ShuffleShard draw now r identifier size' = shuffleShardWithCache draw now r identifier size' False"

definition ShuffleShardWithZoneStability ::
    "(string \<Rightarrow> string \<Rightarrow> nat \<Rightarrow> 32 word) \<Rightarrow> int \<Rightarrow> CachingRing \<Rightarrow> string \<Rightarrow> int
      \<Rightarrow> error + (Ring \<times> CachingRing)" where
  "ShuffleShardWithZoneStability draw now r identifier size' =
     shuffleShardWithCache draw now r identifier size' True"

definition ShuffleShardWithLookback ::
    "(string \<Rightarrow> string \<Rightarrow> nat \<Rightarrow> 32 word) \<Rightarrow> 'a Ring_scheme \<Rightarrow> string \<Rightarrow> int \<Rightarrow> int \<Rightarrow> int
      \<Rightarrow> error + Ring" where
  "ShuffleShardWithLookback draw r identifier size' lookbackPeriod now =
     (if size' \<le> 0 then Inr (Ring.truncate r)
      else
        case InstancesCount r of
          Inl e \<Rightarrow> Inl e
        | Inr count \<Rightarrow>
            if count \<le> size' then Inr (Ring.truncate r)
            else shuffleShard draw r identifier size' lookbackPeriod now False)"

subsection \<open>updateRingState\<close>

text \<open>
  \<open>RingCompare\<close> is not among the sources and the spec gives only its four results, so
  it is a parameter of \<open>updateRingState\<close>; \<open>now\<close> is the reading of \<open>time.Now()\<close>. The
  metrics are not modelled.
\<close>

datatype CompareResult = Equal | EqualButStatesAndTimestamps | EqualButReadOnly | Different

definition updateRingState ::
    "(Desc option \<Rightarrow> Desc \<Rightarrow> CompareResult) \<Rightarrow> int \<Rightarrow> CachingRing \<Rightarrow> Desc \<Rightarrow> CachingRing" where
  "updateRingState RingCompare now r ringDesc' =
     (let prevRing = ringDesc r;
          ringDesc' =
            (if length (ExcludedZones (cfg r)) > 0
             then ringDesc'\<lparr>Ingesters :=
                    filter (\<lambda>(instanceID, instance). Zone instance \<notin> set (ExcludedZones (cfg r)))
                      (Ingesters ringDesc')\<rparr>
             else ringDesc');
          rc = RingCompare prevRing ringDesc'
      in if rc = Equal \<or> rc = EqualButStatesAndTimestamps \<or> rc = EqualButReadOnly
         then
           (let r = r\<lparr>ringDesc := Some ringDesc'\<rparr>
            in if rc = EqualButReadOnly \<and> shuffledSubringCache r \<noteq> None
               then r\<lparr>shuffledSubringCache := Some Map.empty\<rparr>
               else r)
         else
           (let ringTokens' = GetTokens ringDesc';
                ringTokensByZone' = getTokensByZone ringDesc';
                ringInstanceByToken' = getTokensInfo ringDesc';
                ringInstanceByAddr = getInstancesByAddr ringDesc';
                ringZones' = getZones ringTokensByZone';
                r = r\<lparr>ringDesc := Some ringDesc',
                      ringTokens := ringTokens',
                      ringTokensByZone := ringTokensByZone',
                      ringInstanceByToken := ringInstanceByToken',
                      ringInstanceIdByAddr := ringInstanceByAddr,
                      previousRingZones := ringZones r,
                      ringZones := ringZones',
                      lastTopologyChange := now\<rparr>
            in if shuffledSubringCache r \<noteq> None
               then r\<lparr>shuffledSubringCache := Some Map.empty\<rparr>
               else r))"

text \<open>A ring with an empty cache, as \<open>New\<close> builds it.\<close>

definition withCache :: "Ring \<Rightarrow> CachingRing" where
  "withCache r = Ring.extend r (CachingRing.fields (Some Map.empty))"

subsection \<open>Auxiliary notions for shuffle sharding\<close>

text \<open>The ids of the instances that own the tokens of a list.\<close>

definition zone_ids :: "'a Ring_scheme \<Rightarrow> 32 word list \<Rightarrow> string set" where
  "zone_ids r tokens =
     {InstanceID info | t info. t \<in> set tokens \<and> ringInstanceByToken r t = Some info}"

text \<open>The test after which the walk of a draw goes on.\<close>

definition extendsShard :: "int \<Rightarrow> int \<Rightarrow> InstanceDesc \<Rightarrow> bool" where
  "extendsShard lookbackPeriod lookbackUntil instance \<longleftrightarrow>
     (lookbackPeriod > 0 \<and> RegisteredTimestamp instance \<ge> lookbackUntil) \<or> State instance = READONLY"

text \<open>The ids in a shard; a shard whose entries are the descriptors of the ring.\<close>

definition shard_ids :: "(string \<times> InstanceDesc) list \<Rightarrow> string set" where
  "shard_ids shard = fst ` set shard"

definition shard_of :: "'a Ring_scheme \<Rightarrow> (string \<times> InstanceDesc) list \<Rightarrow> bool" where
  "shard_of r shard \<longleftrightarrow> (\<forall>(k, i) \<in> set shard. i = ingester (the (ringDesc r)) k)"

text \<open>
  The tokens that a zone contributes to \<open>shuffleShard\<close>: \<open>r.ringTokensByZone[zone]\<close> with
  zone-awareness, \<open>r.ringTokens\<close> without. All the tokens of the views.
\<close>

definition zone_tokens :: "'a Ring_scheme \<Rightarrow> string \<Rightarrow> 32 word list" where
  "zone_tokens r zone =
     (if ZoneAwarenessEnabled (cfg r)
      then (case map_of (ringTokensByZone r) zone of None \<Rightarrow> [] | Some ts \<Rightarrow> ts)
      else ringTokens r)"

definition all_tokens :: "'a Ring_scheme \<Rightarrow> 32 word list" where
  "all_tokens r = ringTokens r @ concat (map snd (ringTokensByZone r))"

text \<open>
  The token view names only instances of the descriptor: the owner of every token of the
  views has an entry in \<open>r.ringDesc.Ingesters\<close>.
\<close>

definition owners_in_desc :: "'a Ring_scheme \<Rightarrow> bool" where
  "owners_in_desc r \<longleftrightarrow>
     (\<forall>t \<in> set (all_tokens r).
        case ringInstanceByToken r t of
          None \<Rightarrow> True
        | Some info \<Rightarrow> map_of (Ingesters (the (ringDesc r))) (InstanceID info) \<noteq> None)"

text \<open>
  The order on the pairs \<open>(numInstancesPerZone, zonesWithExtraInstance)\<close> under which every
  zone draws at least as often for the second pair as for the first.
\<close>

definition sizes_le :: "int \<Rightarrow> int \<Rightarrow> int \<Rightarrow> int \<Rightarrow> bool" where
  "sizes_le q w q' w' \<longleftrightarrow> (q < q' \<and> 0 \<le> w') \<or> (q = q' \<and> w \<le> w')"

subsection \<open>Auxiliary notions for the cache\<close>

text \<open>The patch that a cache hit applies to an entry of the cached descriptor.\<close>

definition patchInstance :: "Desc \<Rightarrow> string \<times> InstanceDesc \<Rightarrow> string \<times> InstanceDesc" where
  "patchInstance d = (\<lambda>(name, cachedIng).
     (name, cachedIng\<lparr>State := State (ingester d name), Timestamp := Timestamp (ingester d name)\<rparr>))"

text \<open>The descriptor that \<open>updateRingState\<close> installs: the new one without the excluded zones.\<close>

definition excludeZones :: "string list \<Rightarrow> Desc \<Rightarrow> Desc" where
  "excludeZones excluded d =
     (if length excluded > 0
      then d\<lparr>Ingesters := filter (\<lambda>(instanceID, instance). Zone instance \<notin> set excluded) (Ingesters d)\<rparr>
      else d)"

subsection \<open>Example rings\<close>

definition mkInstance :: "string \<Rightarrow> int \<Rightarrow> InstanceState \<Rightarrow> 32 word list \<Rightarrow> string \<Rightarrow> InstanceDesc" where
  "mkInstance addr ts st toks zone =
     \<lparr>Addr = addr, Timestamp = ts, State = st, Tokens = toks, Zone = zone, RegisteredTimestamp = 0\<rparr>"

definition mkInfo :: "string \<Rightarrow> string \<Rightarrow> instanceInfo" where
  "mkInfo instanceID zone = \<lparr>InstanceID = instanceID, InfoZone = zone\<rparr>"

definition mkConfig :: "int \<Rightarrow> bool \<Rightarrow> Config" where
  "mkConfig rf zoneAware =
     \<lparr>HeartbeatTimeout = 60000000000, ReplicationFactor = rf, ZoneAwarenessEnabled = zoneAware,
      ExcludedZones = [], SubringCacheDisabled = False\<rparr>"

text \<open>
  Replication factor 3, three zones of one instance each, zone-awareness on; the heartbeat
  of the instance of zone c is 120 seconds old at \<open>now = 130 s\<close>, the others 30 seconds.
\<close>

definition threeZones :: Ring where
  "threeZones =
     \<lparr>cfg = mkConfig 3 True,
      ringDesc = Some \<lparr>Ingesters =
        [(''i1'', mkInstance ''a1'' 100 ACTIVE [1] ''a''),
         (''i2'', mkInstance ''a2'' 100 ACTIVE [2] ''b''),
         (''i3'', mkInstance ''a3'' 10 ACTIVE [3] ''c'')]\<rparr>,
      ringTokens = [1, 2, 3],
      ringTokensByZone = [(''a'', [1]), (''b'', [2]), (''c'', [3])],
      ringInstanceByToken = [1 \<mapsto> mkInfo ''i1'' ''a'', 2 \<mapsto> mkInfo ''i2'' ''b'', 3 \<mapsto> mkInfo ''i3'' ''c''],
      ringInstanceIdByAddr = [''a1'' \<mapsto> ''i1'', ''a2'' \<mapsto> ''i2'', ''a3'' \<mapsto> ''i3''],
      lastTopologyChange = 0,
      ringZones = [''a'', ''b'', ''c''],
      previousRingZones = []\<rparr>"

text \<open>Replication factor 3, zone-awareness off, four instances of which one is stale.\<close>

definition fourInstances :: Ring where
  "fourInstances =
     \<lparr>cfg = mkConfig 3 False,
      ringDesc = Some \<lparr>Ingesters =
        [(''i1'', mkInstance ''a1'' 100 ACTIVE [1] []),
         (''i2'', mkInstance ''a2'' 100 ACTIVE [2] []),
         (''i3'', mkInstance ''a3'' 10 ACTIVE [3] []),
         (''i4'', mkInstance ''a4'' 100 ACTIVE [4] [])]\<rparr>,
      ringTokens = [1, 2, 3, 4],
      ringTokensByZone = [([], [1, 2, 3, 4])],
      ringInstanceByToken = [1 \<mapsto> mkInfo ''i1'' [], 2 \<mapsto> mkInfo ''i2'' [],
                             3 \<mapsto> mkInfo ''i3'' [], 4 \<mapsto> mkInfo ''i4'' []],
      ringInstanceIdByAddr = [''a1'' \<mapsto> ''i1'', ''a2'' \<mapsto> ''i2'', ''a3'' \<mapsto> ''i3'', ''a4'' \<mapsto> ''i4''],
      lastTopologyChange = 0,
      ringZones = [[]],
      previousRingZones = []\<rparr>"

text \<open>
  Replication factor 2, zone-awareness on, two instances that have no zone set and one
  instance in zone a.
\<close>

definition mixedZones :: Ring where
  "mixedZones =
     \<lparr>cfg = mkConfig 2 True,
      ringDesc = Some \<lparr>Ingesters =
        [(''i1'', mkInstance ''a1'' 100 ACTIVE [1] []),
         (''i2'', mkInstance ''a2'' 100 ACTIVE [2] []),
         (''i3'', mkInstance ''a3'' 100 ACTIVE [3] ''a'')]\<rparr>,
      ringTokens = [1, 2, 3],
      ringTokensByZone = [([], [1, 2]), (''a'', [3])],
      ringInstanceByToken = [1 \<mapsto> mkInfo ''i1'' [], 2 \<mapsto> mkInfo ''i2'' [], 3 \<mapsto> mkInfo ''i3'' ''a''],
      ringInstanceIdByAddr = [''a1'' \<mapsto> ''i1'', ''a2'' \<mapsto> ''i2'', ''a3'' \<mapsto> ''i3''],
      lastTopologyChange = 0,
      ringZones = [[], ''a''],
      previousRingZones = []\<rparr>"

text \<open>
  Zone-awareness off; the READONLY instance i1 owns the tokens 1 and 2, the ACTIVE
  instances i2 and i3 own the tokens 3 and 4.
\<close>

definition readOnlyTwoTokens :: Ring where
  "readOnlyTwoTokens =
     \<lparr>cfg = mkConfig 3 False,
      ringDesc = Some \<lparr>Ingesters =
        [(''i1'', mkInstance ''a1'' 100 READONLY [1, 2] []),
         (''i2'', mkInstance ''a2'' 100 ACTIVE [3] []),
         (''i3'', mkInstance ''a3'' 100 ACTIVE [4] [])]\<rparr>,
      ringTokens = [1, 2, 3, 4],
      ringTokensByZone = [([], [1, 2, 3, 4])],
      ringInstanceByToken = [1 \<mapsto> mkInfo ''i1'' [], 2 \<mapsto> mkInfo ''i1'' [],
                             3 \<mapsto> mkInfo ''i2'' [], 4 \<mapsto> mkInfo ''i3'' []],
      ringInstanceIdByAddr = [''a1'' \<mapsto> ''i1'', ''a2'' \<mapsto> ''i2'', ''a3'' \<mapsto> ''i3''],
      lastTopologyChange = 0,
      ringZones = [[]],
      previousRingZones = []\<rparr>"

text \<open>
  The ring \<open>threeZones\<close> with one cached subring, which holds the instance of zone a, and
  a later descriptor of the same topology in which that instance is LEAVING.
\<close>

definition subringA :: Ring where
  "subringA =
     \<lparr>cfg = mkConfig 3 True,
      ringDesc = Some \<lparr>Ingesters = [(''i1'', mkInstance ''a1'' 100 ACTIVE [1] ''a'')]\<rparr>,
      ringTokens = [1],
      ringTokensByZone = [(''a'', [1])],
      ringInstanceByToken = ringInstanceByToken threeZones,
      ringInstanceIdByAddr = Map.empty,
      lastTopologyChange = 0,
      ringZones = [''a''],
      previousRingZones = []\<rparr>"

definition threeZonesCached :: CachingRing where
  "threeZonesCached =
     Ring.extend threeZones
       (CachingRing.fields (Some [subringCacheKey ''t'' 1 False \<mapsto> subringA]))"

definition threeZonesLeaving :: Desc where
  "threeZonesLeaving =
     \<lparr>Ingesters =
        [(''i1'', mkInstance ''a1'' 200 LEAVING [1] ''a''),
         (''i2'', mkInstance ''a2'' 200 ACTIVE [2] ''b''),
         (''i3'', mkInstance ''a3'' 200 ACTIVE [3] ''c'')]\<rparr>"

text \<open>
  A ring as \<open>New\<close> builds it (an empty descriptor, empty views, an empty cache), and the ring
  that \<open>updateRingState\<close> installs from a descriptor with two instances in zone a, one in
  zone b and one in zone c, with replication factor 3 and zone-awareness on. The state of
  the first instance of zone a is a parameter.
\<close>

definition newRing :: "int \<Rightarrow> bool \<Rightarrow> CachingRing" where
  "newRing rf zoneAware =
     \<lparr>cfg = mkConfig rf zoneAware,
      ringDesc = Some \<lparr>Ingesters = []\<rparr>,
      ringTokens = [],
      ringTokensByZone = [],
      ringInstanceByToken = Map.empty,
      ringInstanceIdByAddr = Map.empty,
      lastTopologyChange = 0,
      ringZones = [],
      previousRingZones = [],
      shuffledSubringCache = Some Map.empty\<rparr>"

definition descAABC :: "InstanceState \<Rightarrow> Desc" where
  "descAABC st =
     \<lparr>Ingesters =
        [(''i1'', mkInstance ''a1'' 100 st [1] ''a''),
         (''i2'', mkInstance ''a2'' 100 ACTIVE [2] ''a''),
         (''i3'', mkInstance ''a3'' 100 ACTIVE [3] ''b''),
         (''i4'', mkInstance ''a4'' 100 ACTIVE [4] ''c'')]\<rparr>"

definition ringAABC :: "InstanceState \<Rightarrow> CachingRing" where
  "ringAABC st = updateRingState (\<lambda>prev next. Different) 0 (newRing 3 True) (descAABC st)"







section \<open>Properties\<close>

subsection \<open>The operation bitmap\<close>

lemma state_num_lt: "state_num s < 6"
  by (cases s) auto

lemma state_num_inj: "state_num s = state_num t \<Longrightarrow> s = t"
  by (cases s; cases t) auto

lemma and_single_bit: "(w AND push_bit n 1 > 0) = bit (w::32 word) n"
  by (simp add: bit_iff_and_push_bit_not_eq_0 word_greater_zero_iff)

lemma push_bit_0x10000: "push_bit n (0x10000 :: 32 word) = push_bit (16 + n) 1"
proof -
  have "(0x10000 :: 32 word) = push_bit 16 1" by simp
  then show ?thesis by (simp only: push_bit_push_bit add.commute)
qed

lemma bit_or_single: "k < 32 \<Longrightarrow> bit ((w :: 32 word) OR push_bit k 1) n \<longleftrightarrow> bit w n \<or> n = k"
  by (auto simp: bit_or_iff bit_exp_iff possible_bit_word)

lemma bit_fold_healthy:
  "bit (fold (\<lambda>s op. op OR push_bit (state_num s) 1) hs (op0 :: 32 word)) n \<longleftrightarrow>
     bit op0 n \<or> (\<exists>s \<in> set hs. state_num s = n)"
proof (induction hs arbitrary: op0)
  case Nil
  then show ?case by simp
next
  case (Cons h hs)
  have "state_num h < 32" using state_num_lt [of h] by simp
  from bit_or_single [OF this] show ?case
    by (auto simp add: Cons.IH simp del: push_bit_of_1)
qed

lemma bit_or_extend: "n < 16 \<Longrightarrow> bit ((w :: 32 word) OR push_bit k 0x10000) n \<longleftrightarrow> bit w n"
  unfolding push_bit_0x10000
  by (auto simp: bit_or_iff bit_exp_iff possible_bit_word)

lemma bit_fold_extend:
  "n < 16 \<Longrightarrow>
   bit (fold (\<lambda>s op. if f s then op OR push_bit (state_num s) 0x10000 else op) xs (op0 :: 32 word)) n
     \<longleftrightarrow> bit op0 n"
proof (induction xs arbitrary: op0)
  case Nil
  then show ?case by simp
next
  case (Cons x xs)
  then show ?case
    using bit_or_extend [of n op0 "state_num x"] by (simp del: push_bit_of_1)
qed

lemma IsInstanceInStateHealthy_NewOp:
  "IsInstanceInStateHealthy (NewOp healthyStates shouldExtendReplicaSet) s \<longleftrightarrow> s \<in> set healthyStates"
proof -
  have lt: "state_num s < 16" using state_num_lt [of s] by simp
  have "bit (NewOp healthyStates shouldExtendReplicaSet) (state_num s)
          \<longleftrightarrow> (\<exists>t \<in> set healthyStates. state_num t = state_num s)"
    unfolding NewOp_def Let_def
    by (cases shouldExtendReplicaSet)
      (simp_all only: option.case bit_fold_extend [OF lt] bit_fold_healthy bit_0_eq, simp_all)
  also have "\<dots> \<longleftrightarrow> s \<in> set healthyStates"
    using state_num_inj by auto
  finally show ?thesis
    unfolding IsInstanceInStateHealthy_def and_single_bit .
qed

text \<open>
  C8. For every list of healthy states and every extend predicate (also a nil one), a state
  is healthy for the operation built by \<open>NewOp\<close> if and only if it is in the list: the
  extend bits, sixteen places up, never reach a healthy bit.
\<close>

theorem NewOp_healthy_roundtrip:
  "IsInstanceInStateHealthy (NewOp healthyStates shouldExtendReplicaSet) s \<longleftrightarrow> s \<in> set healthyStates"
  by (rule IsInstanceInStateHealthy_NewOp)

subsection \<open>The standard operations\<close>

lemma Read_healthy [simp]: "IsInstanceInStateHealthy Read s \<longleftrightarrow> s \<noteq> LEFT"
  unfolding Read_def IsInstanceInStateHealthy_NewOp by (cases s) auto

lemma Write_healthy [simp]: "IsInstanceInStateHealthy Write s \<longleftrightarrow> s = ACTIVE"
  unfolding Write_def IsInstanceInStateHealthy_NewOp by auto

lemma WriteNoExtend_healthy [simp]: "IsInstanceInStateHealthy WriteNoExtend s \<longleftrightarrow> s = ACTIVE"
  unfolding WriteNoExtend_def IsInstanceInStateHealthy_NewOp by auto

subsection \<open>Fleet-wide replication sets\<close>

lemma fold_healthy:
  "fold (\<lambda>(_, instance) instances. if P instance then instances @ [instance] else instances) xs acc
     = acc @ filter P (map snd xs)"
  by (induction xs arbitrary: acc) (auto split: prod.splits)

lemma fold_partition:
  "fold (\<lambda>(_, instance) (h, zf).
           if P instance then (h @ [instance], zf) else (h, insert (Zone instance) zf)) xs (h0, zf0)
     = (h0 @ filter P (map snd xs), zf0 \<union> Zone ` set (filter (\<lambda>i. \<not> P i) (map snd xs)))"
  by (induction xs arbitrary: h0 zf0) (auto split: prod.splits)

lemma GetAllHealthy_eq:
  "GetAllHealthy r now storageLastUpdate op =
     (if ringDesc r = None \<or> Ingesters (the (ringDesc r)) = [] then Inl ErrEmptyRing
      else Inr \<lparr>Instances = filter (\<lambda>i. IsHealthy r now i op storageLastUpdate)
                               (map snd (Ingesters (the (ringDesc r)))),
               MaxErrors = 0, MaxUnavailableZones = 0\<rparr>)"
  by (auto simp: GetAllHealthy_def fold_healthy split: option.splits)

text \<open>
  C10. \<open>GetAllHealthy\<close> returns \<open>ErrEmptyRing\<close> exactly when the descriptor is nil or holds
  no instance; otherwise it succeeds with exactly the instances that pass the health check
  for the operation (possibly none) and \<open>MaxErrors = 0\<close>. It never returns
  \<open>ErrTooManyUnhealthyInstances\<close>.
\<close>

theorem GetAllHealthy_never_too_many:
  "GetAllHealthy r now storageLastUpdate op =
     (if ringDesc r = None \<or> Ingesters (the (ringDesc r)) = [] then Inl ErrEmptyRing
      else Inr \<lparr>Instances = filter (\<lambda>i. IsHealthy r now i op storageLastUpdate)
                               (map snd (Ingesters (the (ringDesc r)))),
               MaxErrors = 0, MaxUnavailableZones = 0\<rparr>)
   \<and> GetAllHealthy r now storageLastUpdate op \<noteq> Inl ErrTooManyUnhealthyInstances"
  by (simp add: GetAllHealthy_eq)

text \<open>With every heartbeat stale, the result is the empty list, not an error.\<close>

theorem GetAllHealthy_never_too_many_witness:
  "GetAllHealthy threeZones 1000000000000 0 Read =
      Inr \<lparr>Instances = [], MaxErrors = 0, MaxUnavailableZones = 0\<rparr>
   \<and> GetAllHealthy threeZones 130000000000 0 Read =
      Inr \<lparr>Instances = [mkInstance ''a1'' 100 ACTIVE [1] ''a'', mkInstance ''a2'' 100 ACTIVE [2] ''b''],
           MaxErrors = 0, MaxUnavailableZones = 0\<rparr>"
  using GetAllHealthy_never_too_many [of threeZones 1000000000000 0 Read]
    GetAllHealthy_never_too_many [of threeZones 130000000000 0 Read]
  by (simp add: threeZones_def mkConfig_def mkInstance_def IsHealthy_def InstanceDesc_IsHealthy_def)

lemma GetReplicationSetForOperation_no_zones_eq:
  fixes r :: "'a Ring_scheme" and now storageLastUpdate :: int and op :: Operation
  assumes "\<not> ZoneAwarenessEnabled (cfg r)" and "ringDesc r = Some d" and "ringTokens r \<noteq> []"
  defines "healthy \<equiv> filter (\<lambda>i. IsHealthy r now i op storageLastUpdate) (map snd (Ingesters d))"
  defines "required \<equiv> max (int (length (Ingesters d))) (ReplicationFactor (cfg r))
                         - ReplicationFactor (cfg r) sdiv 2"
  shows "GetReplicationSetForOperation r now storageLastUpdate op =
     (if int (length healthy) < required then Inl ErrTooManyUnhealthyInstances
      else Inr \<lparr>Instances = healthy, MaxErrors = int (length healthy) - required,
               MaxUnavailableZones = 0\<rparr>)"
  using assms(1-3) unfolding healthy_def required_def
  by (auto simp: GetReplicationSetForOperation_def fold_partition Let_def max_def)

text \<open>
  C5. With zone-awareness disabled and a non-empty ring (a descriptor and at least one
  token), \<open>GetReplicationSetForOperation\<close> computes
  \<open>required = max(|ingesters|, RF) - RF/2\<close>, fails with \<open>ErrTooManyUnhealthyInstances\<close>
  exactly when fewer than \<open>required\<close> instances are healthy for the operation, and otherwise
  returns the healthy instances with \<open>MaxErrors = |healthy| - required\<close> and
  \<open>MaxUnavailableZones = 0\<close>.
\<close>

theorem GetReplicationSetForOperation_no_zones:
  fixes r :: "'a Ring_scheme" and now storageLastUpdate :: int and op :: Operation
  assumes "\<not> ZoneAwarenessEnabled (cfg r)" and "ringDesc r = Some d" and "ringTokens r \<noteq> []"
  defines "healthy \<equiv> filter (\<lambda>i. IsHealthy r now i op storageLastUpdate) (map snd (Ingesters d))"
  defines "required \<equiv> max (int (length (Ingesters d))) (ReplicationFactor (cfg r))
                         - ReplicationFactor (cfg r) sdiv 2"
  shows "GetReplicationSetForOperation r now storageLastUpdate op =
     (if int (length healthy) < required then Inl ErrTooManyUnhealthyInstances
      else Inr \<lparr>Instances = healthy, MaxErrors = int (length healthy) - required,
               MaxUnavailableZones = 0\<rparr>)"
  unfolding healthy_def required_def
  by (rule GetReplicationSetForOperation_no_zones_eq [OF assms(1-3)])

text \<open>The scenario of the spec: four instances, one stale, RF = 3: required is 3, no error to spare.\<close>

theorem GetReplicationSetForOperation_no_zones_witness:
  "\<not> ZoneAwarenessEnabled (cfg fourInstances)
   \<and> ringDesc fourInstances \<noteq> None
   \<and> ringTokens fourInstances \<noteq> []
   \<and> GetReplicationSetForOperation fourInstances 130000000000 0 Read =
       Inr \<lparr>Instances = [mkInstance ''a1'' 100 ACTIVE [1] [], mkInstance ''a2'' 100 ACTIVE [2] [],
                         mkInstance ''a4'' 100 ACTIVE [4] []],
            MaxErrors = 0, MaxUnavailableZones = 0\<rparr>"
  using GetReplicationSetForOperation_no_zones
    [where r = fourInstances and d = "the (ringDesc fourInstances)" and now = 130000000000
       and op = Read and storageLastUpdate = 0]
  by (simp add: fourInstances_def mkConfig_def mkInstance_def IsHealthy_def InstanceDesc_IsHealthy_def signed_divide_int_def)

lemma GetReplicationSetForOperation_zones_eq:
  fixes r :: "'a Ring_scheme" and now storageLastUpdate :: int and op :: Operation
  assumes "ZoneAwarenessEnabled (cfg r)" and "ringDesc r = Some d" and "ringTokens r \<noteq> []"
  defines "numReplicatedZones \<equiv> min (int (length (ringZones r))) (ReplicationFactor (cfg r))"
  defines "minSuccessZones \<equiv> numReplicatedZones sdiv 2 + 1"
  defines "maxUnavailableZones \<equiv> minSuccessZones - 1"
  defines "failedZones \<equiv>
     Zone ` set (filter (\<lambda>i. \<not> IsHealthy r now i op storageLastUpdate) (map snd (Ingesters d)))"
  shows "GetReplicationSetForOperation r now storageLastUpdate op =
     (if int (card failedZones) > maxUnavailableZones then Inl ErrTooManyUnhealthyInstances
      else Inr \<lparr>Instances = filter (\<lambda>i. IsHealthy r now i op storageLastUpdate \<and> Zone i \<notin> failedZones)
                               (map snd (Ingesters d)),
               MaxErrors = 0,
               MaxUnavailableZones = maxUnavailableZones - int (card failedZones)\<rparr>)"
proof -
  have "finite failedZones" unfolding failedZones_def by simp
  then have e: "card failedZones = 0 \<Longrightarrow> failedZones = {}" by simp
  have f: "fold (\<lambda>(_, instance) (healthyInstances, zoneFailures).
                  if IsHealthy r now instance op storageLastUpdate
                  then (healthyInstances @ [instance], zoneFailures)
                  else (healthyInstances, insert (Zone instance) zoneFailures))
             (Ingesters d) ([], {})
           = (filter (\<lambda>i. IsHealthy r now i op storageLastUpdate) (map snd (Ingesters d)), failedZones)"
    unfolding fold_partition failedZones_def by simp
  show ?thesis
    using assms(1-3) e
    unfolding numReplicatedZones_def minSuccessZones_def maxUnavailableZones_def
    by (auto simp: GetReplicationSetForOperation_def f Let_def)
qed

text \<open>
  C1. With zone-awareness enabled and a non-empty ring, \<open>GetReplicationSetForOperation\<close>
  computes \<open>numReplicatedZones = min(|ringZones|, RF)\<close>,
  \<open>minSuccessZones = numReplicatedZones/2 + 1\<close> and
  \<open>maxUnavailableZones = minSuccessZones - 1\<close>. It fails with
  \<open>ErrTooManyUnhealthyInstances\<close> exactly when the number of zones holding an instance that is
  unhealthy for the operation exceeds \<open>maxUnavailableZones\<close>; otherwise it returns every
  healthy instance whose zone holds no unhealthy instance, with \<open>MaxErrors = 0\<close> and
  \<open>MaxUnavailableZones = maxUnavailableZones - |failedZones|\<close>.
\<close>

theorem GetReplicationSetForOperation_zones:
  fixes r :: "'a Ring_scheme" and now storageLastUpdate :: int and op :: Operation
  assumes "ZoneAwarenessEnabled (cfg r)" and "ringDesc r = Some d" and "ringTokens r \<noteq> []"
  defines "numReplicatedZones \<equiv> min (int (length (ringZones r))) (ReplicationFactor (cfg r))"
  defines "minSuccessZones \<equiv> numReplicatedZones sdiv 2 + 1"
  defines "maxUnavailableZones \<equiv> minSuccessZones - 1"
  defines "failedZones \<equiv>
     Zone ` set (filter (\<lambda>i. \<not> IsHealthy r now i op storageLastUpdate) (map snd (Ingesters d)))"
  shows "GetReplicationSetForOperation r now storageLastUpdate op =
     (if int (card failedZones) > maxUnavailableZones then Inl ErrTooManyUnhealthyInstances
      else Inr \<lparr>Instances = filter (\<lambda>i. IsHealthy r now i op storageLastUpdate \<and> Zone i \<notin> failedZones)
                               (map snd (Ingesters d)),
               MaxErrors = 0,
               MaxUnavailableZones = maxUnavailableZones - int (card failedZones)\<rparr>)"
  unfolding failedZones_def maxUnavailableZones_def minSuccessZones_def numReplicatedZones_def
  by (rule GetReplicationSetForOperation_zones_eq [OF assms(1-3)])

text \<open>
  The scenario of the spec: three zones, the instance of zone c stale: the two instances
  of the other zones are returned and no further zone may fail.
\<close>

theorem GetReplicationSetForOperation_zones_witness:
  "ZoneAwarenessEnabled (cfg threeZones)
   \<and> ringDesc threeZones \<noteq> None
   \<and> ringTokens threeZones \<noteq> []
   \<and> GetReplicationSetForOperation threeZones 130000000000 0 Read =
       Inr \<lparr>Instances = [mkInstance ''a1'' 100 ACTIVE [1] ''a'', mkInstance ''a2'' 100 ACTIVE [2] ''b''],
            MaxErrors = 0, MaxUnavailableZones = 0\<rparr>"
  using GetReplicationSetForOperation_zones
    [where r = threeZones and d = "the (ringDesc threeZones)" and now = 130000000000
       and op = Read and storageLastUpdate = 0]
  by (simp add: threeZones_def mkConfig_def mkInstance_def IsHealthy_def InstanceDesc_IsHealthy_def signed_divide_int_def)

subsection \<open>Auto-forget\<close>

lemma AutoForget_body_simp:
  "AutoForget_body fp now (k, i) d =
     (if forgotten fp now i then d\<lparr>Ingesters := filter (\<lambda>(k', _). k' \<noteq> k) (Ingesters d)\<rparr> else d)"
  by (simp add: AutoForget_body_def forgotten_def RemoveIngester_def)

lemma forgotten_keys_Nil: "forgotten_keys fp now [] = {}"
  by (simp add: forgotten_keys_def)

lemma forgotten_keys_Cons:
  "forgotten_keys fp now ((k, i) # xs) =
     (if forgotten fp now i then insert k (forgotten_keys fp now xs) else forgotten_keys fp now xs)"
  by (auto simp: forgotten_keys_def)

lemma forget_fold:
  "fold (AutoForget_body fp now) xs d
   = d\<lparr>Ingesters := filter (\<lambda>(k, _). k \<notin> forgotten_keys fp now xs) (Ingesters d)\<rparr>"
proof (induction xs arbitrary: d)
  case Nil
  then show ?case by (simp add: forgotten_keys_Nil)
next
  case (Cons x xs)
  obtain k i where x: "x = (k, i)" by (cases x)
  show ?case
    unfolding x by (auto simp: Cons.IH AutoForget_body_simp forgotten_keys_Cons case_prod_unfold)
qed

lemma AutoForget_Ingesters:
  assumes "distinct (map fst (Ingesters d))"
  shows "AutoForgetFromRing (Some d) fp now =
           Inr (d\<lparr>Ingesters := filter (\<lambda>(_, i). \<not> forgotten fp now i) (Ingesters d)\<rparr>)"
proof -
  have "filter (\<lambda>(k, _). k \<notin> forgotten_keys fp now (Ingesters d)) (Ingesters d)
      = filter (\<lambda>(_, i). \<not> forgotten fp now i) (Ingesters d)"
  proof (rule filter_cong [OF refl])
    fix x assume xin: "x \<in> set (Ingesters d)"
    obtain k i where x: "x = (k, i)" by (cases x)
    have "k \<in> forgotten_keys fp now (Ingesters d) \<longleftrightarrow> forgotten fp now i"
      unfolding forgotten_keys_def using assms xin x by (auto dest: eq_key_imp_eq_value)
    then show "(case x of (k, _) \<Rightarrow> k \<notin> forgotten_keys fp now (Ingesters d))
             = (case x of (_, i) \<Rightarrow> \<not> forgotten fp now i)"
      unfolding x by simp
  qed
  then show ?thesis
    unfolding AutoForgetFromRing_def by (simp add: forget_fold)
qed

lemma AutoForget_fixpoint:
  assumes "\<forall>(k, i) \<in> set (Ingesters d). \<not> forgotten fp now i"
  shows "AutoForgetFromRing (Some d) fp now = Inr d"
proof -
  have "forgotten_keys fp now (Ingesters d) = {}"
    using assms by (auto simp: forgotten_keys_def)
  then have "filter (\<lambda>(k, _). k \<notin> forgotten_keys fp now (Ingesters d)) (Ingesters d) = Ingesters d"
    by simp
  then show ?thesis
    unfolding AutoForgetFromRing_def by (simp add: forget_fold)
qed

lemma AutoForget_idem:
  assumes "distinct (map fst (Ingesters d))"
  shows "\<exists>d'. AutoForgetFromRing (Some d) fp now = Inr d' \<and> AutoForgetFromRing (Some d') fp now = Inr d'"
  unfolding AutoForget_Ingesters [OF assms]
  by (auto intro!: AutoForget_fixpoint)

lemma forgotten_iff:
  assumes "- (2 ^ 63) \<le> fp" and "fp < 2 ^ 63 - 1"
  shows "forgotten fp now i \<longleftrightarrow> Unix (Timestamp i) < now - fp"
  using assms unfolding forgotten_def Since_def saturate_def by auto

text \<open>
  C9. For a fixed clock reading and forget period, \<open>AutoForgetFromRing\<close> keeps exactly the
  instances that fail its test \<open>time.Since(lastHeartbeat) > forgetPeriod\<close>, and running it
  again on the result changes nothing. The test is \<open>heartbeat < now - forgetPeriod\<close> for
  every forget period below the largest duration (where \<open>time.Since\<close> saturates).
\<close>

theorem AutoForgetFromRing_idempotent:
  fixes d :: Desc and forgetPeriod now :: int
  assumes "distinct (map fst (Ingesters d))"
  defines "d' \<equiv> d\<lparr>Ingesters :=
                    filter (\<lambda>(_, i). \<not> Since now (Unix (Timestamp i)) > forgetPeriod) (Ingesters d)\<rparr>"
  shows "AutoForgetFromRing (Some d) forgetPeriod now = Inr d'
       \<and> AutoForgetFromRing (Some d') forgetPeriod now = Inr d'
       \<and> (- (2 ^ 63) \<le> forgetPeriod \<and> forgetPeriod < 2 ^ 63 - 1 \<longrightarrow>
            Ingesters d' =
              filter (\<lambda>(_, i). \<not> Timestamp i * 1000000000 < now - forgetPeriod) (Ingesters d))"
proof -
  have d': "d' = d\<lparr>Ingesters := filter (\<lambda>(_, i). \<not> forgotten forgetPeriod now i) (Ingesters d)\<rparr>"
    unfolding d'_def forgotten_def ..
  have 1: "AutoForgetFromRing (Some d) forgetPeriod now = Inr d'"
    unfolding d' by (rule AutoForget_Ingesters [OF assms(1)])
  have 2: "AutoForgetFromRing (Some d') forgetPeriod now = Inr d'"
    by (rule AutoForget_fixpoint) (auto simp: d')
  have 3: "Ingesters d' =
      filter (\<lambda>(_, i). \<not> Timestamp i * 1000000000 < now - forgetPeriod) (Ingesters d)"
    if "- (2 ^ 63) \<le> forgetPeriod" "forgetPeriod < 2 ^ 63 - 1"
    unfolding d' using forgotten_iff [OF that] by (simp add: Unix_def)
  from 1 2 3 show ?thesis by blast
qed

text \<open>One instance whose heartbeat is 120 seconds old and one of 30 seconds; forget period 60 seconds.\<close>

theorem AutoForgetFromRing_idempotent_witness:
  "distinct (map fst [(''i1'', mkInstance ''a1'' 100 ACTIVE [1] ''a''), (''i3'', mkInstance ''a3'' 10 ACTIVE [3] ''c'')])
   \<and> AutoForgetFromRing
        (Some \<lparr>Ingesters = [(''i1'', mkInstance ''a1'' 100 ACTIVE [1] ''a''),
                             (''i3'', mkInstance ''a3'' 10 ACTIVE [3] ''c'')]\<rparr>)
        60000000000 130000000000
       = Inr \<lparr>Ingesters = [(''i1'', mkInstance ''a1'' 100 ACTIVE [1] ''a'')]\<rparr>
   \<and> AutoForgetFromRing (Some \<lparr>Ingesters = [(''i1'', mkInstance ''a1'' 100 ACTIVE [1] ''a'')]\<rparr>)
        60000000000 130000000000
       = Inr \<lparr>Ingesters = [(''i1'', mkInstance ''a1'' 100 ACTIVE [1] ''a'')]\<rparr>"
  using AutoForgetFromRing_idempotent
    [where d = "\<lparr>Ingesters = [(''i1'', mkInstance ''a1'' 100 ACTIVE [1] ''a''),
                                (''i3'', mkInstance ''a3'' 10 ACTIVE [3] ''c'')]\<rparr>"
       and forgetPeriod = 60000000000 and now = 130000000000]
  by (simp add: mkInstance_def Since_def saturate_def Unix_def)

subsection \<open>Replica selection\<close>

lemma Get_loop_invariant:
  assumes "Get_loop r d op m v = Inr v'" and "I v"
    and "\<And>v v'. I v \<Longrightarrow> Get_body r d op m v = Inr v' \<Longrightarrow> I (v'\<lparr>g_i := g_i v' + 1\<rparr>)"
  shows "I v'"
  using assms
proof (induction r d op m v rule: Get_loop.induct)
  case (1 r d op m v)
  show ?case
  proof (cases "int (length (g_distinctHosts v)) < g_replicationFactor v \<and>
                g_iterations v < length (ringTokens r)")
    case True
    with "1.prems"(1) obtain w where w: "Get_body r d op m v = Inr w"
      and rest: "Get_loop r d op m (w\<lparr>g_i := g_i w + 1\<rparr>) = Inr v'"
      by (subst (asm) Get_loop.simps) (auto split: sum.splits)
    have "I (w\<lparr>g_i := g_i w + 1\<rparr>)" using "1.prems"(3) [OF "1.prems"(2) w] .
    from "1.IH" [OF True w rest this "1.prems"(3)] show ?thesis .
  next
    case False
    with "1.prems"(1,2) show ?thesis
      by (subst (asm) Get_loop.simps) auto
  qed
qed

lemma Get_body_cases:
  assumes "Get_body r d op m v = Inr v'"
  obtains (skip) "g_instances v' = g_instances v"
      "g_distinctHosts v' = g_distinctHosts v"
      "g_numOfInstanceByZone v' = g_numOfInstanceByZone v"
      "g_zonesWithExtraInstance v' = g_zonesWithExtraInstance v"
  | (extend) info where
      "ringInstanceByToken r (ringTokens r ! (g_i v mod length (ringTokens r))) = Some info"
      "InstanceID info \<notin> set (g_distinctHosts v)"
      "g_distinctHosts v' = g_distinctHosts v @ [InstanceID info]"
      "g_instances v' = g_instances v @ [ingester d (InstanceID info)]"
      "ShouldExtendReplicaSetOnState op (State (ingester d (InstanceID info)))"
      "g_numOfInstanceByZone v' = g_numOfInstanceByZone v"
      "g_zonesWithExtraInstance v' = g_zonesWithExtraInstance v"
  | (unzoned) info where
      "ringInstanceByToken r (ringTokens r ! (g_i v mod length (ringTokens r))) = Some info"
      "InstanceID info \<notin> set (g_distinctHosts v)"
      "g_distinctHosts v' = g_distinctHosts v @ [InstanceID info]"
      "g_instances v' = g_instances v @ [ingester d (InstanceID info)]"
      "\<not> ZoneAwarenessEnabled (cfg r) \<or> InfoZone info = []"
      "g_numOfInstanceByZone v' = g_numOfInstanceByZone v"
      "g_zonesWithExtraInstance v' = g_zonesWithExtraInstance v"
  | (zoned) info where
      "ringInstanceByToken r (ringTokens r ! (g_i v mod length (ringTokens r))) = Some info"
      "InstanceID info \<notin> set (g_distinctHosts v)"
      "g_distinctHosts v' = g_distinctHosts v @ [InstanceID info]"
      "g_instances v' = g_instances v @ [ingester d (InstanceID info)]"
      "\<not> ShouldExtendReplicaSetOnState op (State (ingester d (InstanceID info)))"
      "InfoZone info \<noteq> []"
      "zoneCount (g_numOfInstanceByZone v) (InfoZone info)
         < (if g_zonesWithExtraInstance v > 0 then m + 1 else m)"
      "g_numOfInstanceByZone v' = (g_numOfInstanceByZone v)
         (InfoZone info \<mapsto> zoneCount (g_numOfInstanceByZone v) (InfoZone info) + 1)"
      "g_zonesWithExtraInstance v' \<le> g_zonesWithExtraInstance v"
proof -
  let ?t = "ringTokens r ! (g_i v mod length (ringTokens r))"
  from assms obtain info where info: "ringInstanceByToken r ?t = Some info"
    unfolding Get_body_def Let_def by (cases "ringInstanceByToken r ?t") simp_all
  let ?inst = "ingester d (InstanceID info)"
  let ?w = "v\<lparr>g_i := g_i v mod length (ringTokens r), g_iterations := g_iterations v + 1\<rparr>"
  let ?hosts = "g_distinctHosts v @ [InstanceID info]"
  let ?insts = "g_instances v @ [?inst]"
  let ?max = "if g_zonesWithExtraInstance v > 0 then m + 1 else m"
  let ?cnt = "zoneCount (g_numOfInstanceByZone v) (InfoZone info)"
  show thesis
  proof (cases "InstanceID info \<in> set (g_distinctHosts v)")
    case True
    then have "Get_body r d op m v = Inr ?w"
      by (simp add: Get_body_def Let_def info)
    with assms have "v' = ?w" by simp
    then show ?thesis by (intro skip) simp_all
  next
    case new: False
    show ?thesis
    proof (cases "ZoneAwarenessEnabled (cfg r) \<and> InfoZone info \<noteq> []")
      case zaz: True
      then have za: "ZoneAwarenessEnabled (cfg r)" and z: "InfoZone info \<noteq> []" by auto
      show ?thesis
      proof (cases "?cnt \<ge> ?max")
        case True
        then have "Get_body r d op m v = Inr ?w"
          by (simp add: Get_body_def Let_def info new za z)
        with assms have "v' = ?w" by simp
        then show ?thesis by (intro skip) simp_all
      next
        case notfull: False
        show ?thesis
        proof (cases "ShouldExtendReplicaSetOnState op (State ?inst)")
          case ext: True
          have "Get_body r d op m v =
              Inr (?w\<lparr>g_replicationFactor := wrap64 (g_replicationFactor v + 1),
                       g_distinctHosts := ?hosts, g_instances := ?insts\<rparr>)"
            using notfull by (simp add: Get_body_def Let_def info new za z ext)
          with assms have "v' = ?w\<lparr>g_replicationFactor := wrap64 (g_replicationFactor v + 1),
                       g_distinctHosts := ?hosts, g_instances := ?insts\<rparr>" by simp
          then show ?thesis using info new ext by (intro extend [of info]) simp_all
        next
          case noext: False
          show ?thesis
          proof (cases "g_numOfInstanceByZone v (InfoZone info)")
            case None
            have "Get_body r d op m v =
              Inr (?w\<lparr>g_distinctHosts := ?hosts,
                       g_numOfInstanceByZone := (g_numOfInstanceByZone v)(InfoZone info \<mapsto> 1),
                       g_instances := ?insts\<rparr>)"
              using notfull by (simp add: Get_body_def Let_def info new za z noext None)
            with assms have "v' = ?w\<lparr>g_distinctHosts := ?hosts,
                       g_numOfInstanceByZone := (g_numOfInstanceByZone v)(InfoZone info \<mapsto> 1),
                       g_instances := ?insts\<rparr>" by simp
            then show ?thesis using info new noext z notfull None
              by (intro zoned [of info]) (simp_all add: zoneCount_def)
          next
            case (Some n)
            show ?thesis
            proof (cases "n < m")
              case True
              have "Get_body r d op m v =
                Inr (?w\<lparr>g_distinctHosts := ?hosts,
                       g_numOfInstanceByZone := (g_numOfInstanceByZone v)(InfoZone info \<mapsto> n + 1),
                       g_instances := ?insts\<rparr>)"
                using notfull by (simp add: Get_body_def Let_def info new za z noext Some True)
              with assms have "v' = ?w\<lparr>g_distinctHosts := ?hosts,
                       g_numOfInstanceByZone := (g_numOfInstanceByZone v)(InfoZone info \<mapsto> n + 1),
                       g_instances := ?insts\<rparr>" by simp
              then show ?thesis using info new noext z notfull Some
                by (intro zoned [of info]) (simp_all add: zoneCount_def)
            next
              case False
              have "Get_body r d op m v =
                Inr (?w\<lparr>g_zonesWithExtraInstance := g_zonesWithExtraInstance v - 1,
                       g_distinctHosts := ?hosts,
                       g_numOfInstanceByZone := (g_numOfInstanceByZone v)(InfoZone info \<mapsto> n + 1),
                       g_instances := ?insts\<rparr>)"
                using notfull by (simp add: Get_body_def Let_def info new za z noext Some False)
              with assms have "v' = ?w\<lparr>g_zonesWithExtraInstance := g_zonesWithExtraInstance v - 1,
                       g_distinctHosts := ?hosts,
                       g_numOfInstanceByZone := (g_numOfInstanceByZone v)(InfoZone info \<mapsto> n + 1),
                       g_instances := ?insts\<rparr>" by simp
              then show ?thesis using info new noext z notfull Some
                by (intro zoned [of info]) (simp_all add: zoneCount_def)
            qed
          qed
        qed
      qed
    next
      case nz: False
      show ?thesis
      proof (cases "ShouldExtendReplicaSetOnState op (State ?inst)")
        case ext: True
        have "Get_body r d op m v =
            Inr (?w\<lparr>g_replicationFactor := wrap64 (g_replicationFactor v + 1),
                     g_distinctHosts := ?hosts, g_instances := ?insts\<rparr>)"
          using nz by (auto simp add: Get_body_def Let_def info new ext)
        with assms have "v' = ?w\<lparr>g_replicationFactor := wrap64 (g_replicationFactor v + 1),
                     g_distinctHosts := ?hosts, g_instances := ?insts\<rparr>" by simp
        then show ?thesis using info new ext by (intro extend [of info]) simp_all
      next
        case noext: False
        have "Get_body r d op m v = Inr (?w\<lparr>g_distinctHosts := ?hosts, g_instances := ?insts\<rparr>)"
          using nz by (auto simp add: Get_body_def Let_def info new noext)
        with assms have "v' = ?w\<lparr>g_distinctHosts := ?hosts, g_instances := ?insts\<rparr>" by simp
        then show ?thesis using info new nz by (intro unzoned [of info]) simp_all
      qed
    qed
  qed
qed

lemma Get_body_hosts_inv:
  assumes "hosts_inv d v" and "Get_body r d op m v = Inr v'"
  shows "hosts_inv d (v'\<lparr>g_i := g_i v' + 1\<rparr>)"
  using assms(2)
  by (cases rule: Get_body_cases) (use assms(1) in \<open>simp_all add: hosts_inv_def\<close>)

lemma Get_instances_distinct:
  assumes "Get_instances r key op = Inr (insts, hosts)"
  shows "distinct hosts \<and> insts = map (ingester (the (ringDesc r))) hosts"
proof -
  from assms obtain d v0 m v where d: "ringDesc r = Some d"
    and loop: "Get_loop r d op m v0 = Inr v"
    and v0: "g_distinctHosts v0 = []" "g_instances v0 = []"
    and res: "insts = g_instances v" "hosts = g_distinctHosts v"
    unfolding Get_instances_def Let_def
    by (auto split: option.splits if_splits sum.splits)
  have "hosts_inv d v0" using v0 by (simp add: hosts_inv_def)
  then have "hosts_inv d v"
    by (rule Get_loop_invariant [where I = "hosts_inv d", OF loop]) (rule Get_body_hosts_inv)
  then show ?thesis using d res by (simp add: hosts_inv_def)
qed

lemma Filter_map:
  assumes "Filter (map f hosts) op rf ht za lu now = Inr (healthy, maxFailure)"
  shows "healthy = map f (filter (\<lambda>h. InstanceDesc_IsHealthy (f h) op ht lu now) hosts)"
  using assms unfolding Filter_def Let_def
  by (auto simp: filter_map comp_def split: if_splits)

lemma Get_distinct_hosts:
  assumes "Get r now storageLastUpdate key op = Inr rs"
  shows "\<exists>instances distinctHosts.
           Get_instances r key op = Inr (instances, distinctHosts) \<and>
           distinct distinctHosts \<and>
           Instances rs = map (ingester (the (ringDesc r)))
             (filter (\<lambda>h. InstanceDesc_IsHealthy (ingester (the (ringDesc r)) h) op
                            (HeartbeatTimeout (cfg r)) storageLastUpdate now) distinctHosts)"
proof -
  from assms obtain insts hosts healthy mf where
    gi: "Get_instances r key op = Inr (insts, hosts)"
    and f: "Filter insts op (ReplicationFactor (cfg r)) (HeartbeatTimeout (cfg r))
                  (ZoneAwarenessEnabled (cfg r)) storageLastUpdate now = Inr (healthy, mf)"
    and rs: "Instances rs = healthy"
    unfolding Get_def by (auto split: sum.splits prod.splits)
  from Get_instances_distinct [OF gi] have dh: "distinct hosts"
    and m: "insts = map (ingester (the (ringDesc r))) hosts" by auto
  from Filter_map [OF f [unfolded m]] rs gi dh show ?thesis by auto
qed

lemma notExtending_snoc:
  "notExtending op z (xs @ [x]) =
     (if Zone x = z \<and> \<not> ShouldExtendReplicaSetOnState op (State x)
      then notExtending op z xs @ [x] else notExtending op z xs)"
  by (simp add: notExtending_def)

lemma sdiv_smod_small:
  assumes "0 < rf" and "rf \<le> int n"
  shows "rf sdiv int n \<le> 1" and "rf sdiv int n = 1 \<longrightarrow> rf smod int n \<le> 0"
proof -
  have n: "0 < int n" using assms by linarith
  have d: "rf sdiv int n = rf div int n" and md: "rf smod int n = rf mod int n"
    using assms n by (simp_all add: signed_divide_int_def signed_modulo_int_def sgn_if)
  have "rf div int n \<le> int n div int n"
    using assms n by (intro zdiv_mono1) simp_all
  then show "rf sdiv int n \<le> 1"
    unfolding d using n by simp
  show "rf sdiv int n = 1 \<longrightarrow> rf smod int n \<le> 0"
  proof
    assume "rf sdiv int n = 1"
    then have "rf div int n = 1" by (simp add: d)
    then have "int n \<le> rf"
      using n assms(1) by (smt (verit) div_pos_pos_trivial)
    with assms have "rf = int n" by simp
    then show "rf smod int n \<le> 0" unfolding md by simp
  qed
qed

lemma zone_inv_g_i: "zone_inv op zwe0 (v\<lparr>g_i := x\<rparr>) = zone_inv op zwe0 v"
  by (simp add: zone_inv_def)

lemma zone_invI:
  assumes "g_zonesWithExtraInstance v \<le> zwe0"
    and "\<And>z. z \<noteq> [] \<Longrightarrow>
        zoneCount (g_numOfInstanceByZone v) z = int (length (notExtending op z (g_instances v)))"
    and "\<And>z. z \<noteq> [] \<Longrightarrow> zoneCount (g_numOfInstanceByZone v) z \<le> 1"
  shows "zone_inv op zwe0 v"
  unfolding zone_inv_def
proof (intro conjI allI impI)
  show "g_zonesWithExtraInstance v \<le> zwe0" by (rule assms(1))
next
  fix z :: string assume "z \<noteq> []"
  then show "zoneCount (g_numOfInstanceByZone v) z = int (length (notExtending op z (g_instances v)))"
    by (rule assms(2))
next
  fix z :: string assume "z \<noteq> []"
  then show "zoneCount (g_numOfInstanceByZone v) z \<le> 1"
    by (rule assms(3))
qed

lemma Get_body_zone_inv:
  assumes za: "ZoneAwarenessEnabled (cfg r)"
    and cons: "zones_consistent r" and d: "ringDesc r = Some d"
    and tok: "ringTokens r \<noteq> []"
    and m: "m \<le> 1" "m = 1 \<longrightarrow> zwe0 \<le> 0"
    and inv: "zone_inv op zwe0 v"
    and body: "Get_body r d op m v = Inr v'"
  shows "zone_inv op zwe0 (v'\<lparr>g_i := g_i v' + 1\<rparr>)"
proof -
  let ?t = "ringTokens r ! (g_i v mod length (ringTokens r))"
  have tin: "?t \<in> set (ringTokens r)" using tok by simp
  have zone: "Zone (ingester d (InstanceID info)) = InfoZone info"
    if "ringInstanceByToken r ?t = Some info" for info
    using cons [unfolded zones_consistent_def, rule_format, OF tin] that d by simp
  have le: "g_zonesWithExtraInstance v \<le> zwe0" using inv by (simp add: zone_inv_def)
  have maxNum: "(if g_zonesWithExtraInstance v > 0 then m + 1 else m) \<le> 1"
    using m le by auto
  have cnt: "zoneCount (g_numOfInstanceByZone v) z = int (length (notExtending op z (g_instances v)))"
    and bnd: "zoneCount (g_numOfInstanceByZone v) z \<le> 1" if "z \<noteq> []" for z
    using inv that unfolding zone_inv_def by blast+
  have goal: "zone_inv op zwe0 (v'\<lparr>g_i := g_i v' + 1\<rparr>)"
    if "g_zonesWithExtraInstance v' \<le> zwe0"
      and "\<And>z. z \<noteq> [] \<Longrightarrow>
        zoneCount (g_numOfInstanceByZone v') z = int (length (notExtending op z (g_instances v')))
        \<and> zoneCount (g_numOfInstanceByZone v') z \<le> 1"
    unfolding zone_inv_g_i by (rule zone_invI) (use that in blast)+
  from body show ?thesis
  proof (cases rule: Get_body_cases)
    case skip
    show ?thesis
      by (rule goal) (use skip le cnt bnd in simp_all)
  next
    case (extend info)
    show ?thesis
      by (rule goal) (use extend le cnt bnd in \<open>simp_all add: notExtending_snoc\<close>)
  next
    case (unzoned info)
    with za zone [OF unzoned(1)] have "Zone (ingester d (InstanceID info)) = []" by simp
    then show ?thesis
      by (intro goal) (use unzoned le cnt bnd in \<open>auto simp add: notExtending_snoc\<close>)
  next
    case (zoned info)
    have c0: "zoneCount (g_numOfInstanceByZone v) (InfoZone info) \<le> 0"
      using zoned(7) maxNum by linarith
    show ?thesis
    proof (rule goal)
      show "g_zonesWithExtraInstance v' \<le> zwe0" using zoned(9) le by simp
    next
      fix z :: string assume z: "z \<noteq> []"
      show "zoneCount (g_numOfInstanceByZone v') z = int (length (notExtending op z (g_instances v')))
        \<and> zoneCount (g_numOfInstanceByZone v') z \<le> 1"
      proof (cases "z = InfoZone info")
        case True
        then show ?thesis
          using zoned zone [OF zoned(1)] c0 cnt [OF z]
          by (simp add: zoneCount_def notExtending_snoc)
      next
        case False
        then show ?thesis
          using zoned zone [OF zoned(1)] cnt [OF z] bnd [OF z]
          by (simp add: zoneCount_def notExtending_snoc)
      qed
    qed
  qed
qed

lemma Get_instances_zone_inv:
  assumes za: "ZoneAwarenessEnabled (cfg r)"
    and rf: "0 < ReplicationFactor (cfg r)" "ReplicationFactor (cfg r) \<le> int (length (ringZones r))"
    and cons: "zones_consistent r"
    and get: "Get_instances r key op = Inr (insts, hosts)"
    and zone: "zone \<noteq> []"
  shows "int (length (notExtending op zone insts)) \<le> 1"
proof -
  let ?m = "ReplicationFactor (cfg r) sdiv int (length (ringZones r))"
  let ?zwe = "ReplicationFactor (cfg r) smod int (length (ringZones r))"
  from get obtain d v0 v where d: "ringDesc r = Some d"
    and tok: "ringTokens r \<noteq> []"
    and loop: "Get_loop r d op ?m v0 = Inr v"
    and v0: "g_zonesWithExtraInstance v0 = ?zwe" "g_numOfInstanceByZone v0 = Map.empty"
      "g_instances v0 = []"
    and res: "insts = g_instances v"
    unfolding Get_instances_def Let_def
    by (auto split: option.splits if_splits sum.splits)
  note m = sdiv_smod_small [OF rf]
  have "zone_inv op ?zwe v0"
    by (rule zone_invI) (simp_all add: v0 zoneCount_def notExtending_def)
  then have "zone_inv op ?zwe v"
    by (rule Get_loop_invariant [where I = "zone_inv op ?zwe", OF loop])
       (rule Get_body_zone_inv [OF za cons d tok m])
  with zone res show ?thesis
    unfolding zone_inv_def by auto
qed

lemma ceiling_small:
  assumes "0 < rf" and "rf \<le> int n"
  shows "\<lceil>real_of_int rf / real n\<rceil> = 1"
proof -
  have "0 < real_of_int rf / real n" using assms by simp
  moreover have "real_of_int rf / real n \<le> 1" using assms by (simp add: divide_le_eq_1)
  ultimately show ?thesis
    by (simp add: ceiling_eq_iff)
qed

text \<open>
  C6. The instances that \<open>Get\<close> returns are the descriptors of pairwise distinct instance
  ids: the ids \<open>distinctHosts\<close> collected by the walk have no duplicate, and the result
  holds, in the same order, the descriptor of each of these ids that passes the health check
  of the replication strategy.
\<close>

theorem Get_distinct:
  assumes "Get r now storageLastUpdate key op = Inr rs"
  shows "\<exists>instances distinctHosts.
           Get_instances r key op = Inr (instances, distinctHosts) \<and>
           distinct distinctHosts \<and>
           Instances rs = map (ingester (the (ringDesc r)))
             (filter (\<lambda>h. InstanceDesc_IsHealthy (ingester (the (ringDesc r)) h) op
                            (HeartbeatTimeout (cfg r)) storageLastUpdate now) distinctHosts)"
  using assms by (rule Get_distinct_hosts)

theorem Get_distinct_witness:
  "Get threeZones 130000000000 0 0 Write =
     Inr \<lparr>Instances = [mkInstance ''a1'' 100 ACTIVE [1] ''a'', mkInstance ''a2'' 100 ACTIVE [2] ''b''],
          MaxErrors = 1, MaxUnavailableZones = 0\<rparr>
   \<and> (\<exists>instances distinctHosts.
           Get_instances threeZones 0 Write = Inr (instances, distinctHosts) \<and>
           distinct distinctHosts \<and>
           [mkInstance ''a1'' 100 ACTIVE [1] ''a'', mkInstance ''a2'' 100 ACTIVE [2] ''b''] =
             map (ingester (the (ringDesc threeZones)))
               (filter (\<lambda>h. InstanceDesc_IsHealthy (ingester (the (ringDesc threeZones)) h) Write
                              (HeartbeatTimeout (cfg threeZones)) 0 130000000000) distinctHosts))"
proof -
  have e: "Get threeZones 130000000000 0 0 Write =
     Inr \<lparr>Instances = [mkInstance ''a1'' 100 ACTIVE [1] ''a'', mkInstance ''a2'' 100 ACTIVE [2] ''b''],
          MaxErrors = 1, MaxUnavailableZones = 0\<rparr>"
    by code_simp
  from Get_distinct [OF e] e show ?thesis by simp
qed

text \<open>
  The token view that \<open>updateRingState\<close> derives from a descriptor records, for each token, the
  zone of the descriptor of its owner.
\<close>

lemma in_getTokensInfo:
  assumes "getTokensInfo d t = Some info"
  shows "\<exists>instance. (InstanceID info, instance) \<in> set (Ingesters d) \<and> InfoZone info = Zone instance"
proof -
  from assms have "(t, info) \<in> set (concat (map (\<lambda>(instanceID, instance).
                            map (\<lambda>token. (token, \<lparr>InstanceID = instanceID, InfoZone = Zone instance\<rparr>))
                              (Tokens instance))
                       (Ingesters d)))"
    unfolding getTokensInfo_def by (rule map_of_SomeD)
  then show ?thesis by auto
qed

lemma views_zones_consistent:
  assumes "distinct (map fst (Ingesters d))"
    and "ringDesc r = Some d" and "ringInstanceByToken r = getTokensInfo d"
  shows "zones_consistent r"
  unfolding zones_consistent_def
proof
  fix t assume "t \<in> set (ringTokens r)"
  show "case ringInstanceByToken r t of None \<Rightarrow> True
        | Some info \<Rightarrow> Zone (ingester (the (ringDesc r)) (InstanceID info)) = InfoZone info"
  proof (cases "ringInstanceByToken r t")
    case None
    then show ?thesis by simp
  next
    case (Some info)
    with assms(3) have "getTokensInfo d t = Some info" by simp
    from in_getTokensInfo [OF this] obtain inst where
      i: "(InstanceID info, inst) \<in> set (Ingesters d)" and z: "InfoZone info = Zone inst"
      by blast
    from assms(1) i have "map_of (Ingesters d) (InstanceID info) = Some inst"
      by (rule map_of_is_SomeI)
    then have "ingester d (InstanceID info) = inst" by (simp add: ingester_def)
    with Some z assms(2) show ?thesis by simp
  qed
qed

lemma updateRingState_zones_consistent:
  assumes "distinct (map fst (Ingesters newDesc))"
    and "RingCompare (ringDesc r) (excludeZones (ExcludedZones (cfg r)) newDesc) = Different"
  shows "zones_consistent (updateRingState RingCompare now r newDesc)"
proof -
  let ?d = "excludeZones (ExcludedZones (cfg r)) newDesc"
  have d: "distinct (map fst (Ingesters ?d))"
    using assms(1) by (simp add: excludeZones_def distinct_map_filter)
  have "ringDesc (updateRingState RingCompare now r newDesc) = Some ?d
      \<and> ringInstanceByToken (updateRingState RingCompare now r newDesc) = getTokensInfo ?d"
    using assms(2) by (simp add: updateRingState_def Let_def excludeZones_def)
  then show ?thesis using views_zones_consistent [OF d] by blast
qed

lemma ringAABC_JOINING_candidates:
  "Get_instances (ringAABC JOINING) 0 Write =
     Inr ([mkInstance ''a1'' 100 JOINING [1] ''a'', mkInstance ''a2'' 100 ACTIVE [2] ''a'',
           mkInstance ''a3'' 100 ACTIVE [3] ''b'', mkInstance ''a4'' 100 ACTIVE [4] ''c''],
          [''i1'', ''i2'', ''i3'', ''i4''])"
  by code_simp

lemma ringAABC_ACTIVE_candidates:
  "Get_instances (ringAABC ACTIVE) 0 Write =
     Inr ([mkInstance ''a1'' 100 ACTIVE [1] ''a'',
           mkInstance ''a3'' 100 ACTIVE [3] ''b'', mkInstance ''a4'' 100 ACTIVE [4] ''c''],
          [''i1'', ''i3'', ''i4''])"
  by code_simp

lemma ringAABC_cfg:
  "ZoneAwarenessEnabled (cfg (ringAABC st))" "ReplicationFactor (cfg (ringAABC st)) = 3"
  by (simp_all add: ringAABC_def updateRingState_def Let_def newRing_def mkConfig_def)

lemma ringAABC_zones: "ringZones (ringAABC JOINING) = [''a'', ''b'', ''c'']"
  "ringZones (ringAABC ACTIVE) = [''a'', ''b'', ''c'']"
  by code_simp+

lemma mixedZones_candidates:
  "Get_instances mixedZones 0 Reporting =
     Inr ([mkInstance ''a1'' 100 ACTIVE [1] [], mkInstance ''a2'' 100 ACTIVE [2] []], [''i1'', ''i2''])"
  by code_simp

text \<open>
  C3, as it is stated, fails in two ways, both by design of \<open>Get\<close>.

  First, \<open>Get\<close> applies the per-zone limit only when \<open>info.Zone != ""\<close>: in the ring
  \<open>mixedZones\<close> (two zones, RF = 2) both candidates are instances without a zone, more than
  \<open>\<lceil>2 / 2\<rceil> = 1\<close>, and the state ACTIVE does not extend the replica set for \<open>Reporting\<close>.

  Second, an instance that extends the replica set is added without being counted against
  its zone (``we want to extend the instance in the same AZ''): in \<open>ringAABC JOINING\<close> (three
  zones, RF = 3, operation \<open>Write\<close>) the candidates are i1 (JOINING, zone a), i2 (zone a), i3
  and i4, so zone a holds two of the candidates, and two of the first three, more than
  \<open>\<lceil>3 / 3\<rceil> = 1\<close>.
\<close>

theorem Get_zone_balance_counterexample:
  "ZoneAwarenessEnabled (cfg mixedZones)
   \<and> ReplicationFactor (cfg mixedZones) \<le> int (length (ringZones mixedZones))
   \<and> Get_instances mixedZones 0 Reporting =
        Inr ([mkInstance ''a1'' 100 ACTIVE [1] [], mkInstance ''a2'' 100 ACTIVE [2] []], [''i1'', ''i2''])
   \<and> \<not> ShouldExtendReplicaSetOnState Reporting ACTIVE
   \<and> \<not> int (length (filter (\<lambda>i. Zone i = [])
               [mkInstance ''a1'' 100 ACTIVE [1] [], mkInstance ''a2'' 100 ACTIVE [2] []]))
         \<le> \<lceil>real_of_int (ReplicationFactor (cfg mixedZones)) / real (length (ringZones mixedZones))\<rceil>
   \<and> ZoneAwarenessEnabled (cfg (ringAABC JOINING))
   \<and> ReplicationFactor (cfg (ringAABC JOINING)) \<le> int (length (ringZones (ringAABC JOINING)))
   \<and> Get_instances (ringAABC JOINING) 0 Write =
        Inr ([mkInstance ''a1'' 100 JOINING [1] ''a'', mkInstance ''a2'' 100 ACTIVE [2] ''a'',
              mkInstance ''a3'' 100 ACTIVE [3] ''b'', mkInstance ''a4'' 100 ACTIVE [4] ''c''],
             [''i1'', ''i2'', ''i3'', ''i4''])
   \<and> \<not> int (length (filter (\<lambda>i. Zone i = ''a'')
               [mkInstance ''a1'' 100 JOINING [1] ''a'', mkInstance ''a2'' 100 ACTIVE [2] ''a'',
                mkInstance ''a3'' 100 ACTIVE [3] ''b'', mkInstance ''a4'' 100 ACTIVE [4] ''c'']))
         \<le> \<lceil>real_of_int (ReplicationFactor (cfg (ringAABC JOINING)))
              / real (length (ringZones (ringAABC JOINING)))\<rceil>
   \<and> \<not> int (length (filter (\<lambda>i. Zone i = ''a'')
               (take 3 [mkInstance ''a1'' 100 JOINING [1] ''a'', mkInstance ''a2'' 100 ACTIVE [2] ''a'',
                        mkInstance ''a3'' 100 ACTIVE [3] ''b'', mkInstance ''a4'' 100 ACTIVE [4] ''c''])))
         \<le> \<lceil>real_of_int (ReplicationFactor (cfg (ringAABC JOINING)))
              / real (length (ringZones (ringAABC JOINING)))\<rceil>"
proof -
  have 1: "ZoneAwarenessEnabled (cfg mixedZones)
     \<and> ReplicationFactor (cfg mixedZones) \<le> int (length (ringZones mixedZones))
     \<and> \<not> ShouldExtendReplicaSetOnState Reporting ACTIVE
     \<and> \<not> int (length (filter (\<lambda>i. Zone i = [])
               [mkInstance ''a1'' 100 ACTIVE [1] [], mkInstance ''a2'' 100 ACTIVE [2] []]))
         \<le> \<lceil>real_of_int (ReplicationFactor (cfg mixedZones)) / real (length (ringZones mixedZones))\<rceil>"
    by (simp add: mixedZones_def mkConfig_def mkInstance_def Reporting_def allStatesRingOperation_def
        ShouldExtendReplicaSetOnState_def)
  have 2: "\<not> int (length (filter (\<lambda>i. Zone i = ''a'')
               [mkInstance ''a1'' 100 JOINING [1] ''a'', mkInstance ''a2'' 100 ACTIVE [2] ''a'',
                mkInstance ''a3'' 100 ACTIVE [3] ''b'', mkInstance ''a4'' 100 ACTIVE [4] ''c'']))
         \<le> \<lceil>real_of_int (ReplicationFactor (cfg (ringAABC JOINING)))
              / real (length (ringZones (ringAABC JOINING)))\<rceil>"
    and 3: "\<not> int (length (filter (\<lambda>i. Zone i = ''a'')
               (take 3 [mkInstance ''a1'' 100 JOINING [1] ''a'', mkInstance ''a2'' 100 ACTIVE [2] ''a'',
                        mkInstance ''a3'' 100 ACTIVE [3] ''b'', mkInstance ''a4'' 100 ACTIVE [4] ''c''])))
         \<le> \<lceil>real_of_int (ReplicationFactor (cfg (ringAABC JOINING)))
              / real (length (ringZones (ringAABC JOINING)))\<rceil>"
    and 4: "ReplicationFactor (cfg (ringAABC JOINING)) \<le> int (length (ringZones (ringAABC JOINING)))"
    by (simp_all add: ringAABC_cfg ringAABC_zones mkInstance_def)
  from 1 2 3 4 mixedZones_candidates ringAABC_JOINING_candidates ringAABC_cfg(1) [of JOINING]
  show ?thesis by blast
qed

text \<open>
  C3, amended. With zone-awareness enabled, \<open>0 < RF \<le> |zones|\<close> and a token view that records
  for each token the zone of its owner's descriptor (as the view that \<open>updateRingState\<close>
  derives does), the candidates that \<open>Get\<close> collects for a key hold, in every non-empty zone,
  at most \<open>\<lceil>RF / |zones|\<rceil>\<close> instances that did not extend the replica set. Instances that
  extend the replica set are not counted against their zone, and instances without a zone
  are not limited.
\<close>

theorem Get_zone_balance:
  assumes "ZoneAwarenessEnabled (cfg r)"
    and "0 < ReplicationFactor (cfg r)"
    and "ReplicationFactor (cfg r) \<le> int (length (ringZones r))"
    and "zones_consistent r"
    and "Get_instances r key op = Inr (instances, distinctHosts)"
    and "zone \<noteq> []"
  shows "int (length (filter (\<lambda>i. Zone i = zone \<and> \<not> ShouldExtendReplicaSetOnState op (State i)) instances))
           \<le> \<lceil>real_of_int (ReplicationFactor (cfg r)) / real (length (ringZones r))\<rceil>"
  using Get_instances_zone_inv [OF assms] ceiling_small [OF assms(2,3)]
  by (simp add: notExtending_def)

text \<open>
  The ring that \<open>updateRingState\<close> installs from two instances in zone a and one each in zones
  b and c, all ACTIVE, with RF = 3: i1 of zone a is a candidate, i2 of zone a is passed over
  because the zone is full, and i3 and i4 complete the candidates.
\<close>

theorem Get_zone_balance_witness:
  "ZoneAwarenessEnabled (cfg (ringAABC ACTIVE))
   \<and> 0 < ReplicationFactor (cfg (ringAABC ACTIVE))
   \<and> ReplicationFactor (cfg (ringAABC ACTIVE)) \<le> int (length (ringZones (ringAABC ACTIVE)))
   \<and> zones_consistent (ringAABC ACTIVE)
   \<and> Get_instances (ringAABC ACTIVE) 0 Write =
        Inr ([mkInstance ''a1'' 100 ACTIVE [1] ''a'',
              mkInstance ''a3'' 100 ACTIVE [3] ''b'', mkInstance ''a4'' 100 ACTIVE [4] ''c''],
             [''i1'', ''i3'', ''i4''])
   \<and> int (length (filter (\<lambda>i. Zone i = ''a'' \<and> \<not> ShouldExtendReplicaSetOnState Write (State i))
             [mkInstance ''a1'' 100 ACTIVE [1] ''a'',
              mkInstance ''a3'' 100 ACTIVE [3] ''b'', mkInstance ''a4'' 100 ACTIVE [4] ''c''])) \<le> 1"
proof -
  have za: "ZoneAwarenessEnabled (cfg (ringAABC ACTIVE))"
    and rf: "0 < ReplicationFactor (cfg (ringAABC ACTIVE))"
      "ReplicationFactor (cfg (ringAABC ACTIVE)) \<le> int (length (ringZones (ringAABC ACTIVE)))"
    by (simp_all add: ringAABC_cfg ringAABC_zones)
  have cons: "zones_consistent (ringAABC ACTIVE)"
    unfolding ringAABC_def
    by (rule updateRingState_zones_consistent) (simp_all add: descAABC_def)
  note e = ringAABC_ACTIVE_candidates
  have z: "''a'' \<noteq> []" by simp
  have c: "\<lceil>real_of_int (ReplicationFactor (cfg (ringAABC ACTIVE)))
            / real (length (ringZones (ringAABC ACTIVE)))\<rceil> = 1"
    by (simp add: ringAABC_cfg ringAABC_zones)
  from Get_zone_balance [OF za rf cons e z] za rf cons e show ?thesis
    unfolding c by simp
qed

subsection \<open>The selection walk of shuffle sharding\<close>

lemma shard_ids_snoc [simp]: "shard_ids (shard @ [(k, i)]) = insert k (shard_ids shard)"
  by (simp add: shard_ids_def)

lemma shard_ids_Nil [simp]: "shard_ids [] = {}"
  by (simp add: shard_ids_def)

lemma map_of_shard_ids: "map_of shard k = None \<longleftrightarrow> k \<notin> shard_ids shard"
  by (simp add: shard_ids_def map_of_eq_None_iff)

lemma walk_cases:
  assumes "shuffleShard_walk r lp lu tokens p it shard = Inr (shard', found)"
  obtains (finished) "\<not> it < length tokens" "shard' = shard" "\<not> found"
  | (skip) info where "it < length tokens"
      "ringInstanceByToken r (tokens ! (p mod length tokens)) = Some info"
      "InstanceID info \<in> shard_ids shard"
      "shuffleShard_walk r lp lu tokens (p mod length tokens + 1) (it + 1) shard = Inr (shard', found)"
  | (extend) info d where "it < length tokens"
      "ringInstanceByToken r (tokens ! (p mod length tokens)) = Some info"
      "InstanceID info \<notin> shard_ids shard"
      "ringDesc r = Some d"
      "extendsShard lp lu (ingester d (InstanceID info))"
      "shuffleShard_walk r lp lu tokens (p mod length tokens + 1) (it + 1)
         (shard @ [(InstanceID info, ingester d (InstanceID info))]) = Inr (shard', found)"
  | (stop) info d where "it < length tokens"
      "ringInstanceByToken r (tokens ! (p mod length tokens)) = Some info"
      "InstanceID info \<notin> shard_ids shard"
      "ringDesc r = Some d"
      "\<not> extendsShard lp lu (ingester d (InstanceID info))"
      "shard' = shard @ [(InstanceID info, ingester d (InstanceID info))]" "found"
proof (cases "it < length tokens")
  case False
  with assms have "shard' = shard" "\<not> found"
    by (subst (asm) shuffleShard_walk.simps, simp)+
  with False show ?thesis by (rule finished)
next
  case lt: True
  let ?t = "tokens ! (p mod length tokens)"
  from assms lt obtain info where info: "ringInstanceByToken r ?t = Some info"
    by (subst (asm) shuffleShard_walk.simps) (cases "ringInstanceByToken r ?t"; simp add: Let_def)
  show ?thesis
  proof (cases "map_of shard (InstanceID info) = None")
    case False
    then have "InstanceID info \<in> shard_ids shard"
      by (simp add: map_of_shard_ids)
    moreover from assms lt info False
    have "shuffleShard_walk r lp lu tokens (p mod length tokens + 1) (it + 1) shard = Inr (shard', found)"
      by (subst (asm) shuffleShard_walk.simps) (simp add: Let_def)
    ultimately show ?thesis using lt info by (intro skip [of info])
  next
    case new: True
    then have notin: "InstanceID info \<notin> shard_ids shard"
      by (simp add: map_of_shard_ids)
    from assms lt info new obtain d where d: "ringDesc r = Some d"
      by (subst (asm) shuffleShard_walk.simps) (cases "ringDesc r"; simp add: Let_def)
    show ?thesis
    proof (cases "extendsShard lp lu (ingester d (InstanceID info))")
      case True
      with assms lt info new d
      have "shuffleShard_walk r lp lu tokens (p mod length tokens + 1) (it + 1)
         (shard @ [(InstanceID info, ingester d (InstanceID info))]) = Inr (shard', found)"
        by (subst (asm) shuffleShard_walk.simps) (simp add: Let_def extendsShard_def)
      with lt info notin d True show ?thesis by (intro extend [of info d])
    next
      case False
      with assms lt info new d
      have "shard' = shard @ [(InstanceID info, ingester d (InstanceID info))] \<and> found"
        by (subst (asm) shuffleShard_walk.simps) (auto simp add: Let_def extendsShard_def)
      with lt info notin d False show ?thesis by (intro stop [of info d]) auto
    qed
  qed
qed

lemma zone_ids_nth:
  assumes "tokens \<noteq> []" and "ringInstanceByToken r (tokens ! (p mod length tokens)) = Some info"
  shows "InstanceID info \<in> zone_ids r tokens"
  unfolding zone_ids_def using assms
  by (auto intro!: exI [of _ "tokens ! (p mod length tokens)"] exI [of _ info])

lemma shard_of_snoc:
  "ringDesc r = Some d \<Longrightarrow> shard_of r shard \<Longrightarrow> shard_of r (shard @ [(k, ingester d k)])"
  by (auto simp: shard_of_def)

lemma walk_bounds:
  assumes "shuffleShard_walk r lp lu tokens p it shard = Inr (shard', found)"
  shows "shard_ids shard \<subseteq> shard_ids shard'
       \<and> shard_ids shard' \<subseteq> shard_ids shard \<union> zone_ids r tokens
       \<and> (shard_of r shard \<longrightarrow> shard_of r shard')"
  using assms
proof (induction "length tokens - it" arbitrary: p it shard)
  case 0
  from "0.prems" show ?case
  proof (cases rule: walk_cases)
    case finished
    then show ?thesis by auto
  qed (use "0.hyps" in auto)
next
  case (Suc n)
  from Suc.prems show ?case
  proof (cases rule: walk_cases)
    case finished
    then show ?thesis by auto
  next
    case (skip info)
    from Suc.hyps(2) have "n = length tokens - (it + 1)" by simp
    from Suc.hyps(1) [OF this skip(4)] show ?thesis .
  next
    case (extend info d)
    from Suc.hyps(2) have "n = length tokens - (it + 1)" by simp
    from Suc.hyps(1) [OF this extend(6)]
    have a: "insert (InstanceID info) (shard_ids shard) \<subseteq> shard_ids shard'"
      and b: "shard_ids shard' \<subseteq> insert (InstanceID info) (shard_ids shard) \<union> zone_ids r tokens"
      and c: "shard_of r (shard @ [(InstanceID info, ingester d (InstanceID info))]) \<longrightarrow> shard_of r shard'"
      by simp_all
    have ne: "tokens \<noteq> []" using extend(1) by auto
    note z = zone_ids_nth [OF ne extend(2)]
    from a have "shard_ids shard \<subseteq> shard_ids shard'" by auto
    moreover from b z have "shard_ids shard' \<subseteq> shard_ids shard \<union> zone_ids r tokens" by auto
    moreover from c shard_of_snoc [OF extend(4)] have "shard_of r shard \<longrightarrow> shard_of r shard'" by blast
    ultimately show ?thesis by blast
  next
    case (stop info d)
    have ne: "tokens \<noteq> []" using stop(1) by auto
    note z = zone_ids_nth [OF ne stop(2)]
    from stop z shard_of_snoc [OF stop(4)] show ?thesis by auto
  qed
qed

lemma walk_not_found_visits:
  assumes "shuffleShard_walk r lp lu tokens p it shard = Inr (shard', False)"
    and "j < length tokens - it"
    and "ringInstanceByToken r (tokens ! ((p + j) mod length tokens)) = Some info"
  shows "InstanceID info \<in> shard_ids shard'"
  using assms
proof (induction "length tokens - it" arbitrary: p it shard j)
  case 0
  then show ?case by simp
next
  case (Suc n)
  have n: "n = length tokens - (it + 1)" using Suc.hyps(2) by simp
  have next_pos: "(p mod length tokens + 1 + k) mod length tokens = (p + (k + 1)) mod length tokens" for k
    using mod_add_left_eq [of p "length tokens" "1 + k"] by (simp add: ac_simps)
  from Suc.prems(1) show ?case
  proof (cases rule: walk_cases)
    case finished
    with Suc.prems(2) show ?thesis by simp
  next
    case (skip info0)
    show ?thesis
    proof (cases j)
      case 0
      with skip(2) Suc.prems(3) have "info = info0" by simp
      with skip(3) walk_bounds [OF skip(4)] show ?thesis by auto
    next
      case (Suc k)
      with Suc.prems(2) have k: "k < length tokens - (it + 1)" by simp
      from Suc.prems(3) have "ringInstanceByToken r (tokens ! ((p mod length tokens + 1 + k) mod length tokens)) = Some info"
        unfolding next_pos Suc by simp
      from Suc.hyps(1) [OF n skip(4) k this] show ?thesis .
    qed
  next
    case (extend info0 d)
    show ?thesis
    proof (cases j)
      case 0
      with extend(2) Suc.prems(3) have "info = info0" by simp
      with walk_bounds [OF extend(6)] show ?thesis by auto
    next
      case (Suc k)
      with Suc.prems(2) have k: "k < length tokens - (it + 1)" by simp
      from Suc.prems(3) have "ringInstanceByToken r (tokens ! ((p mod length tokens + 1 + k) mod length tokens)) = Some info"
        unfolding next_pos Suc by simp
      from Suc.hyps(1) [OF n extend(6) k this] show ?thesis .
    qed
  next
    case (stop info0 d)
    then show ?thesis by simp
  qed
qed

lemma walk_not_found_all:
  assumes "shuffleShard_walk r lp lu tokens p 0 shard = Inr (shard', False)"
  shows "zone_ids r tokens \<subseteq> shard_ids shard'"
proof
  fix x assume "x \<in> zone_ids r tokens"
  then obtain t info where t: "t \<in> set tokens" and info: "ringInstanceByToken r t = Some info"
    and x: "x = InstanceID info"
    unfolding zone_ids_def by auto
  from t obtain k where k: "k < length tokens" and tk: "tokens ! k = t"
    by (auto simp: in_set_conv_nth)
  let ?n = "length tokens"
  let ?j = "(k + ?n - p mod ?n) mod ?n"
  have n: "0 < ?n" using k by auto
  have pm: "p mod ?n < ?n" using n by simp
  have "(p + ?j) mod ?n = (p + (k + ?n - p mod ?n)) mod ?n"
    by (simp add: mod_add_right_eq)
  also have "p + (k + ?n - p mod ?n) = (p div ?n) * ?n + (p mod ?n + (k + ?n - p mod ?n))"
    by (simp add: add.assoc [symmetric])
  also have "p mod ?n + (k + ?n - p mod ?n) = k + ?n" using pm by simp
  also have "((p div ?n) * ?n + (k + ?n)) mod ?n = k" using k by simp
  finally have pos: "(p + ?j) mod ?n = k" .
  have j: "?j < ?n - 0" using n by simp
  from walk_not_found_visits [OF assms j] pos tk info x show "x \<in> shard_ids shard'"
    by simp
qed

lemma walk_mono:
  assumes "shuffleShard_walk r lp lu tokens p it S = Inr (S1, f)"
    and "shuffleShard_walk r lp lu tokens p it S' = Inr (S1', f')"
    and "shard_ids S \<subseteq> shard_ids S'"
  shows "shard_ids S1 \<subseteq> shard_ids S1' \<and> (f' \<longrightarrow> f)"
  using assms
proof (induction "length tokens - it" arbitrary: p it S S')
  case 0
  from "0.prems"(1) have a: "S1 = S" "\<not> f"
    by (cases rule: walk_cases; use "0.hyps" in simp)+
  from "0.prems"(2) have b: "S1' = S'" "\<not> f'"
    by (cases rule: walk_cases; use "0.hyps" in simp)+
  from a b "0.prems"(3) show ?case by simp
next
  case (Suc n)
  have n: "n = length tokens - (it + 1)" using Suc.hyps(2) by simp
  have lt: "it < length tokens" using Suc.hyps(2) by simp
  from Suc.prems(1) show ?case
  proof (cases rule: walk_cases)
    case finished
    with lt show ?thesis by simp
  next
    case (skip info)
    with Suc.prems(3) have in': "InstanceID info \<in> shard_ids S'" by auto
    from Suc.prems(2) have "shuffleShard_walk r lp lu tokens (p mod length tokens + 1) (it + 1) S' = Inr (S1', f')"
      by (cases rule: walk_cases) (use lt skip(2) in' in auto)
    from Suc.hyps(1) [OF n skip(4) this Suc.prems(3)] show ?thesis .
  next
    case (extend info d)
    let ?S = "S @ [(InstanceID info, ingester d (InstanceID info))]"
    from Suc.prems(2) show ?thesis
    proof (cases rule: walk_cases)
      case finished
      with lt show ?thesis by simp
    next
      case s': (skip info')
      with extend(2) have [simp]: "info' = info" by simp
      from s'(3) Suc.prems(3) have "shard_ids ?S \<subseteq> shard_ids S'" by auto
      from Suc.hyps(1) [OF n extend(6) s'(4) this] show ?thesis .
    next
      case e': (extend info' d')
      with extend(2,4) have i: "info' = info" and dd: "d' = d" by simp_all
      from Suc.prems(3) have "shard_ids ?S \<subseteq> shard_ids (S' @ [(InstanceID info, ingester d (InstanceID info))])"
        by auto
      from Suc.hyps(1) [OF n extend(6) e'(6) [unfolded i dd] this] show ?thesis .
    next
      case st': (stop info' d')
      with extend(2,4,5) show ?thesis by simp
    qed
  next
    case (stop info d)
    from Suc.prems(2) show ?thesis
    proof (cases rule: walk_cases)
      case finished
      with lt show ?thesis by simp
    next
      case s': (skip info')
      with stop(2) have [simp]: "info' = info" by simp
      from walk_bounds [OF s'(4)] have "shard_ids S' \<subseteq> shard_ids S1'" by blast
      with s'(3) stop Suc.prems(3) show ?thesis by auto
    next
      case e': (extend info' d')
      with stop(2,4,5) show ?thesis by simp
    next
      case st': (stop info' d')
      with stop(2,4) have [simp]: "info' = info" "d' = d" by simp_all
      from st' stop Suc.prems(3) show ?thesis by auto
    qed
  qed
qed

lemma walk_added:
  assumes "shuffleShard_walk r lp lu tokens p it shard = Inr (shard', found)"
  shows "\<exists>added. shard' = shard @ added
     \<and> distinct (map fst added)
     \<and> (\<forall>x \<in> set added. fst x \<notin> shard_ids shard \<and> fst x \<in> zone_ids r tokens
            \<and> snd x = ingester (the (ringDesc r)) (fst x))
     \<and> (\<forall>x \<in> set (butlast added). extendsShard lp lu (snd x))
     \<and> (found \<longleftrightarrow> added \<noteq> [] \<and> \<not> extendsShard lp lu (snd (last added)))"
  using assms
proof (induction "length tokens - it" arbitrary: p it shard)
  case 0
  from "0.prems" have "shard' = shard" "\<not> found"
    by (cases rule: walk_cases; use "0.hyps" in simp)+
  then show ?case by (intro exI [of _ "[]"]) simp
next
  case (Suc n)
  have n: "n = length tokens - (it + 1)" using Suc.hyps(2) by simp
  from Suc.prems show ?case
  proof (cases rule: walk_cases)
    case finished
    then show ?thesis by (intro exI [of _ "[]"]) simp
  next
    case (skip info)
    from Suc.hyps(1) [OF n skip(4)] show ?thesis .
  next
    case (extend info d)
    let ?x = "(InstanceID info, ingester d (InstanceID info))"
    from Suc.hyps(1) [OF n extend(6)] obtain added where
      a: "shard' = (shard @ [?x]) @ added"
      and b: "distinct (map fst added)"
      and c: "\<And>y. y \<in> set added \<Longrightarrow> fst y \<notin> shard_ids (shard @ [?x]) \<and> fst y \<in> zone_ids r tokens
                 \<and> snd y = ingester (the (ringDesc r)) (fst y)"
      and e: "\<And>y. y \<in> set (butlast added) \<Longrightarrow> extendsShard lp lu (snd y)"
      and f: "found \<longleftrightarrow> added \<noteq> [] \<and> \<not> extendsShard lp lu (snd (last added))"
      by blast
    have ne: "tokens \<noteq> []" using extend(1) by auto
    note z = zone_ids_nth [OF ne extend(2)]
    show ?thesis
    proof (intro exI [of _ "?x # added"] conjI ballI)
      show "shard' = shard @ ?x # added" using a by simp
      show "distinct (map fst (?x # added))" using b c by force
      show "found \<longleftrightarrow> ?x # added \<noteq> [] \<and> \<not> extendsShard lp lu (snd (last (?x # added)))"
        using f extend(5) by auto
    next
      fix y assume "y \<in> set (?x # added)"
      then consider "y = ?x" | "y \<in> set added" by auto
      then show "fst y \<notin> shard_ids shard" using extend(3) c by cases auto
    next
      fix y assume "y \<in> set (?x # added)"
      then consider "y = ?x" | "y \<in> set added" by auto
      then show "fst y \<in> zone_ids r tokens" using z c by cases auto
    next
      fix y assume "y \<in> set (?x # added)"
      then consider "y = ?x" | "y \<in> set added" by auto
      then show "snd y = ingester (the (ringDesc r)) (fst y)" using extend(4) c by cases auto
    next
      fix y assume "y \<in> set (butlast (?x # added))"
      then have "added \<noteq> [] \<and> (y = ?x \<or> y \<in> set (butlast added))"
        by (cases added) auto
      then show "extendsShard lp lu (snd y)" using extend(5) e [of y] by auto
    qed
  next
    case (stop info d)
    let ?x = "(InstanceID info, ingester d (InstanceID info))"
    have ne: "tokens \<noteq> []" using stop(1) by auto
    note z = zone_ids_nth [OF ne stop(2)]
    show ?thesis
      by (intro exI [of _ "[?x]"]) (use stop z in simp)
  qed
qed

lemma zone_ids_iff:
  "k \<in> zone_ids r tokens \<longleftrightarrow>
     (\<exists>t \<in> set tokens. \<exists>info. ringInstanceByToken r t = Some info \<and> InstanceID info = k)"
  unfolding zone_ids_def mem_Collect_eq by blast

lemma walk_found_position:
  assumes "shuffleShard_walk r lp lu tokens p it shard = Inr (shard', True)"
  shows "\<exists>j < length tokens - it.
           (\<exists>info. ringInstanceByToken r (tokens ! ((p + j) mod length tokens)) = Some info
                   \<and> shard' \<noteq> [] \<and> fst (last shard') = InstanceID info)
         \<and> (\<forall>i < j. \<forall>info. ringInstanceByToken r (tokens ! ((p + i) mod length tokens)) = Some info
                   \<longrightarrow> InstanceID info \<in> shard_ids shard')"
  using assms
proof (induction "length tokens - it" arbitrary: p it shard)
  case 0
  from "0.prems" show ?case
    by (cases rule: walk_cases) (use "0.hyps" in simp_all)
next
  case (Suc n)
  have n: "n = length tokens - (it + 1)" using Suc.hyps(2) by simp
  have next_pos: "(p mod length tokens + 1 + k) mod length tokens = (p + (k + 1)) mod length tokens" for k
    using mod_add_left_eq [of p "length tokens" "1 + k"] by (simp add: ac_simps)
  have step: ?case
    if rest: "shuffleShard_walk r lp lu tokens (p mod length tokens + 1) (it + 1) S = Inr (shard', True)"
      and here: "\<And>info. ringInstanceByToken r (tokens ! (p mod length tokens)) = Some info
                   \<Longrightarrow> InstanceID info \<in> shard_ids S" for S
  proof -
    from Suc.hyps(1) [OF n rest] obtain j info where j: "j < length tokens - (it + 1)"
      and last: "ringInstanceByToken r (tokens ! ((p mod length tokens + 1 + j) mod length tokens)) = Some info"
        "shard' \<noteq> []" "fst (last shard') = InstanceID info"
      and before: "\<And>i info. i < j \<Longrightarrow>
          ringInstanceByToken r (tokens ! ((p mod length tokens + 1 + i) mod length tokens)) = Some info
          \<Longrightarrow> InstanceID info \<in> shard_ids shard'"
      by blast
    from walk_bounds [OF rest] have sub: "shard_ids S \<subseteq> shard_ids shard'" by blast
    show ?thesis
    proof (intro exI [of _ "j + 1"] conjI allI impI)
      show "j + 1 < length tokens - it" using j by simp
      show "\<exists>info. ringInstanceByToken r (tokens ! ((p + (j + 1)) mod length tokens)) = Some info
                   \<and> shard' \<noteq> [] \<and> fst (last shard') = InstanceID info"
        using last unfolding next_pos by blast
    next
      fix i info' assume i: "i < j + 1"
        and o: "ringInstanceByToken r (tokens ! ((p + i) mod length tokens)) = Some info'"
      show "InstanceID info' \<in> shard_ids shard'"
      proof (cases i)
        case 0
        with o here sub show ?thesis by auto
      next
        case (Suc k)
        with i have "k < j" by simp
        moreover from o Suc have "ringInstanceByToken r (tokens ! ((p mod length tokens + 1 + k) mod length tokens)) = Some info'"
          unfolding next_pos by simp
        ultimately show ?thesis by (rule before)
      qed
    qed
  qed
  from Suc.prems show ?case
  proof (cases rule: walk_cases)
    case finished
    then show ?thesis by simp
  next
    case (skip info)
    show ?thesis
      by (rule step [OF skip(4)]) (use skip(2,3) in auto)
  next
    case (extend info d)
    show ?thesis
      by (rule step [OF extend(6)]) (use extend(2) in auto)
  next
    case (stop info d)
    have "0 < length tokens - it" using stop(1) by simp
    moreover have "ringInstanceByToken r (tokens ! ((p + 0) mod length tokens)) = Some info
                   \<and> shard' \<noteq> [] \<and> fst (last shard') = InstanceID info"
      using stop by simp
    ultimately show ?thesis by (intro exI [of _ 0]) blast
  qed
qed

lemma readOnlyTwoTokens_walk:
  "shuffleShard_walk readOnlyTwoTokens 0 0 [1, 2, 3, 4] 0 0 [] =
     Inr ([(''i1'', mkInstance ''a1'' 100 READONLY [1, 2] []),
           (''i2'', mkInstance ''a2'' 100 ACTIVE [3] [])], True)"
  by code_simp

text \<open>
  The entry points and the walk. \<open>ShuffleShard\<close> and \<open>ShuffleShardWithZoneStability\<close> run
  \<open>shuffleShard\<close> with \<open>lookbackPeriod = 0\<close> when the subring is not cached, and
  \<open>ShuffleShardWithLookback\<close> runs it with its own period. Without a lookback period the
  walk does not depend on \<open>lookbackUntil\<close>, so the first two do not depend on the clock.
\<close>

lemma walk_no_lookback:
  fixes r :: "'a Ring_scheme"
  assumes "lookbackPeriod \<le> 0"
  shows "shuffleShard_walk r lookbackPeriod lookbackUntil tokens p iterations shard
       = shuffleShard_walk r lookbackPeriod lookbackUntil' tokens p iterations shard"
  using assms
proof (induction r lookbackPeriod lookbackUntil tokens p iterations shard
    rule: shuffleShard_walk.induct)
  case (1 r lookbackPeriod lookbackUntil tokens p iterations shard)
  show ?case
  proof (cases "iterations < length tokens")
    case False
    then show ?thesis by (simp add: shuffleShard_walk.simps [of r lookbackPeriod _ tokens p iterations shard])
  next
    case it: True
    show ?thesis
    proof (cases "ringInstanceByToken r (tokens ! (p mod length tokens))")
      case None
      with it show ?thesis
        by (simp add: shuffleShard_walk.simps [of r lookbackPeriod _ tokens p iterations shard])
    next
      case (Some info)
      show ?thesis
      proof (cases "map_of shard (InstanceID info) \<noteq> None")
        case True
        from "1.IH"(1) [OF it refl refl Some True "1.prems"] it Some True
        show ?thesis
          by (simp add: shuffleShard_walk.simps [of r lookbackPeriod _ tokens p iterations shard])
      next
        case nin: False
        show ?thesis
        proof (cases "ringDesc r")
          case None
          with it Some nin show ?thesis
            by (simp add: shuffleShard_walk.simps [of r lookbackPeriod _ tokens p iterations shard])
        next
          case d: (Some d)
          show ?thesis
          proof (cases "State (ingester d (InstanceID info)) = READONLY")
            case True
            from "1.IH"(2) [OF it refl refl Some nin d refl refl refl] True "1.prems"
              it Some nin d
            show ?thesis
              by (simp add: shuffleShard_walk.simps [of r lookbackPeriod _ tokens p iterations shard] Let_def)
          next
            case False
            with it Some nin d "1.prems" show ?thesis
              by (simp add: shuffleShard_walk.simps [of r lookbackPeriod _ tokens p iterations shard] Let_def)
          qed
        qed
      qed
    qed
  qed
qed

lemma zone_no_lookback:
  fixes r :: "'a Ring_scheme"
  assumes "lookbackPeriod \<le> 0"
  shows "shuffleShard_zone draw r ident lookbackPeriod lookbackUntil zone tokens n i shard
       = shuffleShard_zone draw r ident lookbackPeriod lookbackUntil' zone tokens n i shard"
  using assms
proof (induction draw r ident lookbackPeriod lookbackUntil zone tokens n i shard
    rule: shuffleShard_zone.induct)
  case (1 draw r ident lookbackPeriod lookbackUntil zone tokens n i shard)
  show ?case
  proof (cases "int i < n")
    case False
    then show ?thesis
      by (simp add: shuffleShard_zone.simps [of draw r ident lookbackPeriod _ zone tokens n i shard])
  next
    case True
    note w = walk_no_lookback [OF "1.prems", of r lookbackUntil' tokens
        "searchToken tokens (draw ident zone i)" 0 shard lookbackUntil]
    show ?thesis
    proof (cases "shuffleShard_walk r lookbackPeriod lookbackUntil tokens
        (searchToken tokens (draw ident zone i)) 0 shard")
      case (Inl e)
      with True show ?thesis
        by (simp add: w shuffleShard_zone.simps [of draw r ident lookbackPeriod _ zone tokens n i shard])
    next
      case (Inr res)
      obtain shard' found where res: "res = (shard', found)" by (cases res)
      show ?thesis
      proof (cases found)
        case False
        with True Inr res show ?thesis
          by (simp add: w shuffleShard_zone.simps [of draw r ident lookbackPeriod _ zone tokens n i shard])
      next
        case f: True
        from "1.IH" [OF True refl Inr [unfolded res] refl] f "1.prems"
        have "shuffleShard_zone draw r ident lookbackPeriod lookbackUntil zone tokens n (i + 1) shard'
            = shuffleShard_zone draw r ident lookbackPeriod lookbackUntil' zone tokens n (i + 1) shard'"
          by simp
        with True Inr res f show ?thesis
          by (simp add: w shuffleShard_zone.simps [of draw r ident lookbackPeriod _ zone tokens n i shard])
      qed
    qed
  qed
qed

lemma zones_no_lookback:
  fixes r :: "'a Ring_scheme"
  assumes "lookbackPeriod \<le> 0"
  shows "shuffleShard_zones draw r ident lookbackPeriod lookbackUntil q w zones shard
       = shuffleShard_zones draw r ident lookbackPeriod lookbackUntil' q w zones shard"
proof (induction zones arbitrary: w shard)
  case Nil
  show ?case by simp
next
  case (Cons zone zones)
  show ?case
    by (simp add: Let_def Cons.IH zone_no_lookback [OF assms, of draw r ident lookbackUntil _ _ _ _ _ lookbackUntil']
        split: sum.splits)
qed

lemma shuffleShard_no_lookback:
  "shuffleShard draw r ident size' 0 now zoneStableSharding
     = shuffleShard draw r ident size' 0 now' zoneStableSharding"
  unfolding shuffleShard_def Let_def
  using zones_no_lookback [of 0 draw r ident "(now - 0) div 1000000000" _ _ _ _ "(now' - 0) div 1000000000"]
  by simp

lemma ShuffleShard_time_independent:
  "ShuffleShard draw now r ident size' = ShuffleShard draw now' r ident size'"
  "ShuffleShardWithZoneStability draw now r ident size'
     = ShuffleShardWithZoneStability draw now' r ident size'"
  unfolding ShuffleShard_def ShuffleShardWithZoneStability_def shuffleShardWithCache_def
  by (simp_all only: shuffleShard_no_lookback [of draw _ ident size' now _ now'])

lemma shuffleShardWithCache_miss:
  assumes "0 < size'" and "InstancesCount r = Inr count" and "size' < count"
    and "getCachedShuffledSubring r ident size' zoneStableSharding = Inr (None, r')"
  shows "shuffleShardWithCache draw now r ident size' zoneStableSharding =
     (case shuffleShard draw r' ident size' 0 now zoneStableSharding of
        Inl e \<Rightarrow> Inl e
      | Inr result \<Rightarrow> Inr (result, setCachedShuffledSubring r' ident size' zoneStableSharding result))"
  using assms by (simp add: shuffleShardWithCache_def)

lemma ShuffleShardWithLookback_shuffleShard:
  assumes "0 < size'" and "InstancesCount r = Inr count" and "size' < count"
  shows "ShuffleShardWithLookback draw r ident size' lookbackPeriod now =
     shuffleShard draw r ident size' lookbackPeriod now False"
  using assms by (simp add: ShuffleShardWithLookback_def)

text \<open>
  C2. The walk of a draw (the innermost loop of \<open>shuffleShard\<close>, which \<open>ShuffleShard\<close> and
  \<open>ShuffleShardWithZoneStability\<close> run with \<open>lookbackPeriod = 0\<close> and
  \<open>ShuffleShardWithLookback\<close> with its own, all with
  \<open>lookbackUntil = now.Add(-lookbackPeriod).Unix()\<close>) appends to the shard instances that were
  not in it, each the descriptor of the owner of a token of the zone. After an instance is
  added the walk goes on exactly when (\<open>lookbackPeriod > 0\<close> and the registered timestamp is
  at least \<open>lookbackUntil\<close>) or the state is READONLY: every added instance but the last
  meets this condition, and \<open>found\<close> is returned true if and only if an instance was added
  and the last one does not meet it. When \<open>found\<close> is true the last added instance owns the
  token at which the walk broke off and the owners of all tokens before it are in the
  shard, already selected ones having been skipped; when it is false the walk has visited
  every remaining token.
\<close>

theorem shuffleShard_walk_continues_iff:
  fixes r :: "'a Ring_scheme" and lookbackPeriod lookbackUntil :: int
  assumes "shuffleShard_walk r lookbackPeriod lookbackUntil tokens p iterations shard = Inr (shard', found)"
  defines "continues \<equiv> \<lambda>instance.
     (lookbackPeriod > 0 \<and> RegisteredTimestamp instance \<ge> lookbackUntil) \<or> State instance = READONLY"
  defines "owner \<equiv> \<lambda>j. ringInstanceByToken r (tokens ! ((p + j) mod length tokens))"
  shows "\<exists>added. shard' = shard @ added
     \<and> distinct (map fst added)
     \<and> (\<forall>x \<in> set added. map_of shard (fst x) = None
            \<and> snd x = ingester (the (ringDesc r)) (fst x)
            \<and> (\<exists>t \<in> set tokens. \<exists>info. ringInstanceByToken r t = Some info \<and> InstanceID info = fst x))
     \<and> (\<forall>x \<in> set (butlast added). continues (snd x))
     \<and> (found \<longleftrightarrow> added \<noteq> [] \<and> \<not> continues (snd (last added)))
     \<and> (found \<longrightarrow>
          (\<exists>j < length tokens - iterations.
             (\<exists>info. owner j = Some info \<and> fst (last added) = InstanceID info)
           \<and> (\<forall>i < j. \<forall>info. owner i = Some info \<longrightarrow> map_of shard' (InstanceID info) \<noteq> None)))
     \<and> (\<not> found \<longrightarrow>
          (\<forall>j < length tokens - iterations. \<forall>info.
             owner j = Some info \<longrightarrow> map_of shard' (InstanceID info) \<noteq> None))"
proof -
  have c: "continues = extendsShard lookbackPeriod lookbackUntil"
    unfolding continues_def extendsShard_def ..
  from walk_added [OF assms(1)] obtain added where
    a: "shard' = shard @ added" "distinct (map fst added)"
    and x: "\<And>x. x \<in> set added \<Longrightarrow> fst x \<notin> shard_ids shard \<and> fst x \<in> zone_ids r tokens
            \<and> snd x = ingester (the (ringDesc r)) (fst x)"
    and e: "\<forall>x \<in> set (butlast added). continues (snd x)"
    and f: "found \<longleftrightarrow> added \<noteq> [] \<and> \<not> continues (snd (last added))"
    unfolding c by blast
  have x': "map_of shard (fst x) = None
            \<and> snd x = ingester (the (ringDesc r)) (fst x)
            \<and> (\<exists>t \<in> set tokens. \<exists>info. ringInstanceByToken r t = Some info \<and> InstanceID info = fst x)"
    if "x \<in> set added" for x
    using x [OF that] unfolding map_of_shard_ids zone_ids_iff by blast
  have fnd: "\<exists>j < length tokens - iterations.
             (\<exists>info. owner j = Some info \<and> fst (last added) = InstanceID info)
           \<and> (\<forall>i < j. \<forall>info. owner i = Some info \<longrightarrow> map_of shard' (InstanceID info) \<noteq> None)"
    if found
  proof -
    from that f have ne: "added \<noteq> []" by simp
    then have l: "last shard' = last added" using a(1) by simp
    from that assms(1) have "shuffleShard_walk r lookbackPeriod lookbackUntil tokens p iterations shard = Inr (shard', True)"
      by simp
    from walk_found_position [OF this] show ?thesis
      unfolding owner_def map_of_shard_ids l by blast
  qed
  have nfnd: "\<forall>j < length tokens - iterations. \<forall>info.
             owner j = Some info \<longrightarrow> map_of shard' (InstanceID info) \<noteq> None"
    if "\<not> found"
  proof (intro allI impI)
    fix j info assume j: "j < length tokens - iterations" and o: "owner j = Some info"
    from that assms(1) have "shuffleShard_walk r lookbackPeriod lookbackUntil tokens p iterations shard = Inr (shard', False)"
      by simp
    from walk_not_found_visits [OF this j o [unfolded owner_def]]
    show "map_of shard' (InstanceID info) \<noteq> None"
      by (simp add: map_of_shard_ids)
  qed
  show ?thesis
    by (intro exI [of _ added] conjI ballI impI) (use a e f x' fnd nfnd in blast)+
qed

text \<open>
  From token 1 the READONLY instance i1 is added and the walk goes on, skips token 2 (also
  of i1), adds the ACTIVE instance i2 at token 3 and breaks.
\<close>

theorem shuffleShard_walk_continues_iff_witness:
  "shuffleShard_walk readOnlyTwoTokens 0 0 [1, 2, 3, 4] 0 0 [] =
     Inr ([(''i1'', mkInstance ''a1'' 100 READONLY [1, 2] []),
           (''i2'', mkInstance ''a2'' 100 ACTIVE [3] [])], True)
   \<and> (\<exists>added. [(''i1'', mkInstance ''a1'' 100 READONLY [1, 2] []),
                 (''i2'', mkInstance ''a2'' 100 ACTIVE [3] [])] = [] @ added
        \<and> added \<noteq> []
        \<and> State (snd (hd added)) = READONLY
        \<and> State (snd (last added)) \<noteq> READONLY)"
proof -
  note e = readOnlyTwoTokens_walk
  from shuffleShard_walk_continues_iff [OF e] obtain added where
    a: "[(''i1'', mkInstance ''a1'' 100 READONLY [1, 2] []),
         (''i2'', mkInstance ''a2'' 100 ACTIVE [3] [])] = [] @ added"
    and f: "True \<longleftrightarrow> added \<noteq> [] \<and>
              \<not> ((0 :: int) > 0 \<and> RegisteredTimestamp (snd (last added)) \<ge> 0
                   \<or> State (snd (last added)) = READONLY)"
    by blast
  from a have "State (snd (hd added)) = READONLY"
    by (auto simp add: mkInstance_def)
  with e a f show ?thesis by blast
qed

subsection \<open>The subring cache\<close>

lemma getCachedShuffledSubring_hit:
  assumes "\<not> SubringCacheDisabled (cfg r)"
    and "shuffledSubringCache r = Some cache"
    and "cache (subringCacheKey identifier size' zoneStableSharding) = Some cached"
    and "ringDesc cached = Some cachedDesc"
    and "ringDesc r = Some d"
  shows "getCachedShuffledSubring r identifier size' zoneStableSharding =
     Inr (Some (cached\<lparr>ringDesc := Some (cachedDesc\<lparr>Ingesters := map (patchInstance d) (Ingesters cachedDesc)\<rparr>)\<rparr>),
          r\<lparr>shuffledSubringCache := Some (cache(subringCacheKey identifier size' zoneStableSharding \<mapsto>
             cached\<lparr>ringDesc := Some (cachedDesc\<lparr>Ingesters := map (patchInstance d) (Ingesters cachedDesc)\<rparr>)\<rparr>))\<rparr>)"
  using assms
  by (simp add: getCachedShuffledSubring_def Let_def patchInstance_def)

lemma updateRingState_states:
  assumes "RingCompare (ringDesc r) (excludeZones (ExcludedZones (cfg r)) newDesc) = EqualButStatesAndTimestamps"
  shows "updateRingState RingCompare now r newDesc =
           r\<lparr>ringDesc := Some (excludeZones (ExcludedZones (cfg r)) newDesc)\<rparr>"
  using assms
  by (simp add: updateRingState_def Let_def excludeZones_def)

text \<open>
  C7. A cache hit changes nothing but the cached subring of the looked-up key: the lookup
  returns that subring, and the ring with that one entry of the cache replaced by it. In
  the subring only the descriptor changes, and in the descriptor only the state and the
  heartbeat timestamp of each instance, which are read from the current descriptor of the
  parent ring under the same id (\<open>r.ringDesc.Ingesters[name]\<close>); the ids, tokens, zones and
  the token views of the subring, the other entries of the cache and the rest of the parent
  ring stay as they are. Hence, after an update that \<open>RingCompare\<close> classifies as
  \<open>EqualButStatesAndTimestamps\<close>, which installs the new descriptor and keeps the cache,
  the lookup returns the cached subring with the states and timestamps of the new
  descriptor.
\<close>

theorem cache_hit_patches_state_and_timestamp:
  fixes r :: CachingRing and newDesc :: Desc and cached :: Ring and cachedDesc :: Desc
  assumes "\<not> SubringCacheDisabled (cfg r)"
    and "shuffledSubringCache r = Some cache"
    and "cache (subringCacheKey identifier size' zoneStableSharding) = Some cached"
    and "ringDesc cached = Some cachedDesc"
  defines "patched d \<equiv>
     cached\<lparr>ringDesc := Some (cachedDesc\<lparr>Ingesters :=
       map (\<lambda>(name, cachedIng).
              (name, cachedIng\<lparr>State := State (ingester d name), Timestamp := Timestamp (ingester d name)\<rparr>))
         (Ingesters cachedDesc)\<rparr>)\<rparr>"
  defines "current \<equiv> excludeZones (ExcludedZones (cfg r)) newDesc"
  shows "(ringDesc r = Some d \<longrightarrow>
            getCachedShuffledSubring r identifier size' zoneStableSharding
              = Inr (Some (patched d),
                     r\<lparr>shuffledSubringCache :=
                         Some (cache(subringCacheKey identifier size' zoneStableSharding \<mapsto> patched d))\<rparr>))
       \<and> (RingCompare (ringDesc r) current = EqualButStatesAndTimestamps \<longrightarrow>
            updateRingState RingCompare now r newDesc = r\<lparr>ringDesc := Some current\<rparr>
          \<and> getCachedShuffledSubring (updateRingState RingCompare now r newDesc)
              identifier size' zoneStableSharding
              = Inr (Some (patched current),
                     r\<lparr>ringDesc := Some current,
                       shuffledSubringCache :=
                         Some (cache(subringCacheKey identifier size' zoneStableSharding \<mapsto>
                                 patched current))\<rparr>))"
proof -
  have p: "patched d = cached\<lparr>ringDesc := Some (cachedDesc\<lparr>Ingesters := map (patchInstance d) (Ingesters cachedDesc)\<rparr>)\<rparr>"
    for d unfolding patched_def patchInstance_def ..
  have 1: "getCachedShuffledSubring r identifier size' zoneStableSharding
              = Inr (Some (patched d),
                     r\<lparr>shuffledSubringCache :=
                         Some (cache(subringCacheKey identifier size' zoneStableSharding \<mapsto> patched d))\<rparr>)"
    if "ringDesc r = Some d"
    unfolding p by (rule getCachedShuffledSubring_hit [OF assms(1-4) that])
  have 2: "updateRingState RingCompare now r newDesc = r\<lparr>ringDesc := Some current\<rparr>
     \<and> getCachedShuffledSubring (updateRingState RingCompare now r newDesc)
              identifier size' zoneStableSharding
              = Inr (Some (patched current),
                     r\<lparr>ringDesc := Some current,
                       shuffledSubringCache :=
                         Some (cache(subringCacheKey identifier size' zoneStableSharding \<mapsto>
                                 patched current))\<rparr>)"
    if "RingCompare (ringDesc r) current = EqualButStatesAndTimestamps"
  proof -
    let ?r = "r\<lparr>ringDesc := Some current\<rparr>"
    have u: "updateRingState RingCompare now r newDesc = ?r"
      using that unfolding current_def by (rule updateRingState_states)
    have "getCachedShuffledSubring ?r identifier size' zoneStableSharding =
       Inr (Some (patched current),
            ?r\<lparr>shuffledSubringCache := Some (cache(subringCacheKey identifier size' zoneStableSharding \<mapsto>
               patched current))\<rparr>)"
      unfolding p
      by (rule getCachedShuffledSubring_hit) (use assms(1-4) in simp_all)
    then show ?thesis unfolding u by simp
  qed
  from 1 2 show ?thesis by blast
qed

text \<open>
  The cached subring of \<open>threeZones\<close> holds i1 as ACTIVE with heartbeat 100; after the update
  the lookup returns it with i1 LEAVING and heartbeat 200, and the ring holds the new
  descriptor and the patched subring as its only cache entry.
\<close>

theorem cache_hit_patches_state_and_timestamp_witness:
  "\<not> SubringCacheDisabled (cfg threeZonesCached)
   \<and> shuffledSubringCache threeZonesCached = Some [subringCacheKey ''t'' 1 False \<mapsto> subringA]
   \<and> ringDesc subringA = Some \<lparr>Ingesters = [(''i1'', mkInstance ''a1'' 100 ACTIVE [1] ''a'')]\<rparr>
   \<and> getCachedShuffledSubring
        (updateRingState (\<lambda>prev next. EqualButStatesAndTimestamps) 5 threeZonesCached threeZonesLeaving)
        ''t'' 1 False
      = Inr (Some (subringA\<lparr>ringDesc :=
                     Some \<lparr>Ingesters = [(''i1'', mkInstance ''a1'' 200 LEAVING [1] ''a'')]\<rparr>\<rparr>),
             threeZonesCached\<lparr>ringDesc := Some threeZonesLeaving,
               shuffledSubringCache :=
                 Some [subringCacheKey ''t'' 1 False \<mapsto>
                   subringA\<lparr>ringDesc :=
                     Some \<lparr>Ingesters = [(''i1'', mkInstance ''a1'' 200 LEAVING [1] ''a'')]\<rparr>\<rparr>]\<rparr>)"
proof -
  have a: "\<not> SubringCacheDisabled (cfg threeZonesCached)"
    by (simp add: threeZonesCached_def threeZones_def mkConfig_def Ring.extend_def)
  have b: "shuffledSubringCache threeZonesCached = Some [subringCacheKey ''t'' 1 False \<mapsto> subringA]"
    by (simp add: threeZonesCached_def Ring.extend_def CachingRing.fields_def)
  have c: "[subringCacheKey ''t'' 1 False \<mapsto> subringA] (subringCacheKey ''t'' 1 False) = Some subringA"
    by simp
  have d: "ringDesc subringA = Some \<lparr>Ingesters = [(''i1'', mkInstance ''a1'' 100 ACTIVE [1] ''a'')]\<rparr>"
    by (simp add: subringA_def)
  have e: "excludeZones (ExcludedZones (cfg threeZonesCached)) threeZonesLeaving = threeZonesLeaving"
    by (simp add: threeZonesCached_def threeZones_def mkConfig_def excludeZones_def Ring.extend_def)
  have i: "ingester threeZonesLeaving ''i1'' = mkInstance ''a1'' 200 LEAVING [1] ''a''"
    by (simp add: ingester_def threeZonesLeaving_def)
  have m: "[subringCacheKey ''t'' 1 False \<mapsto> subringA]
             (subringCacheKey ''t'' 1 False \<mapsto> x) = [subringCacheKey ''t'' 1 False \<mapsto> x]" for x
    by (rule fun_upd_upd)
  have "subringA\<lparr>ringDesc := Some (\<lparr>Ingesters = [(''i1'', mkInstance ''a1'' 100 ACTIVE [1] ''a'')]\<rparr>
           \<lparr>Ingesters := map (\<lambda>(name, cachedIng).
              (name, cachedIng\<lparr>State := State (ingester threeZonesLeaving name),
                                Timestamp := Timestamp (ingester threeZonesLeaving name)\<rparr>))
              (Ingesters \<lparr>Ingesters = [(''i1'', mkInstance ''a1'' 100 ACTIVE [1] ''a'')]\<rparr>)\<rparr>)\<rparr>
      = subringA\<lparr>ringDesc := Some \<lparr>Ingesters = [(''i1'', mkInstance ''a1'' 200 LEAVING [1] ''a'')]\<rparr>\<rparr>"
    by (simp add: i mkInstance_def)
  from cache_hit_patches_state_and_timestamp [OF a b c d,
      where RingCompare = "\<lambda>prev next. EqualButStatesAndTimestamps" and newDesc = threeZonesLeaving
        and now = 5, THEN conjunct2, unfolded e, rule_format, OF refl, THEN conjunct2, unfolded this m]
  have "getCachedShuffledSubring
        (updateRingState (\<lambda>prev next. EqualButStatesAndTimestamps) 5 threeZonesCached threeZonesLeaving)
        ''t'' 1 False
      = Inr (Some (subringA\<lparr>ringDesc :=
                     Some \<lparr>Ingesters = [(''i1'', mkInstance ''a1'' 200 LEAVING [1] ''a'')]\<rparr>\<rparr>),
             threeZonesCached\<lparr>ringDesc := Some threeZonesLeaving,
               shuffledSubringCache :=
                 Some [subringCacheKey ''t'' 1 False \<mapsto>
                   subringA\<lparr>ringDesc :=
                     Some \<lparr>Ingesters = [(''i1'', mkInstance ''a1'' 200 LEAVING [1] ''a'')]\<rparr>\<rparr>]\<rparr>)" .
  with a b d show ?thesis by simp
qed

subsection \<open>Shuffle sharding is monotone in the shard size\<close>

lemma zone_bounds:
  fixes r :: "'a Ring_scheme"
  assumes "shuffleShard_zone draw r ident lp lu zone tokens n i S = Inr T"
  shows "shard_ids S \<subseteq> shard_ids T
       \<and> shard_ids T \<subseteq> shard_ids S \<union> zone_ids r tokens
       \<and> (shard_of r S \<longrightarrow> shard_of r T)"
  using assms
proof (induction draw r ident lp lu zone tokens n i S rule: shuffleShard_zone.induct)
  case (1 draw r ident lp lu zone tokens n i S)
  note simps = shuffleShard_zone.simps [of draw r ident lp lu zone tokens n i S]
  show ?case
  proof (cases "int i < n")
    case False
    with "1.prems" simps have "T = S" by simp
    then show ?thesis by simp
  next
    case True
    show ?thesis
    proof (cases "shuffleShard_walk r lp lu tokens (searchToken tokens (draw ident zone i)) 0 S")
      case (Inl e)
      with True "1.prems" simps show ?thesis by simp
    next
      case (Inr res)
      obtain S1 f where res: "res = (S1, f)" by (cases res)
      note w = walk_bounds [OF Inr [unfolded res]]
      show ?thesis
      proof (cases f)
        case False
        with True Inr res "1.prems" simps have "T = S1" by simp
        with w show ?thesis by simp
      next
        case f: True
        with True Inr res "1.prems" simps
        have "shuffleShard_zone draw r ident lp lu zone tokens n (i + 1) S1 = Inr T" by simp
        from "1.IH" [OF True refl Inr [unfolded res] refl] f this
        have "shard_ids S1 \<subseteq> shard_ids T
           \<and> shard_ids T \<subseteq> shard_ids S1 \<union> zone_ids r tokens
           \<and> (shard_of r S1 \<longrightarrow> shard_of r T)" by simp
        with w show ?thesis by blast
      qed
    qed
  qed
qed

lemma zone_mono:
  fixes r :: "'a Ring_scheme"
  assumes "shuffleShard_zone draw r ident lp lu zone tokens n i S = Inr T"
    and "shuffleShard_zone draw r ident lp lu zone tokens n' i S' = Inr T'"
    and "n \<le> n'"
    and "shard_ids S \<subseteq> shard_ids S'"
  shows "shard_ids T \<subseteq> shard_ids T'"
  using assms
proof (induction draw r ident lp lu zone tokens n i S arbitrary: S'
    rule: shuffleShard_zone.induct)
  case (1 draw r ident lp lu zone tokens n i S)
  note simps = shuffleShard_zone.simps [of draw r ident lp lu zone tokens n i S]
  note simps' = shuffleShard_zone.simps [of draw r ident lp lu zone tokens n' i S']
  note b' = zone_bounds [OF "1.prems"(2)]
  show ?case
  proof (cases "int i < n")
    case False
    with "1.prems"(1) simps have "T = S" by simp
    with b' "1.prems"(4) show ?thesis by blast
  next
    case True
    with "1.prems"(3) have True': "int i < n'" by simp
    let ?p = "searchToken tokens (draw ident zone i)"
    show ?thesis
    proof (cases "shuffleShard_walk r lp lu tokens ?p 0 S")
      case (Inl e)
      with True "1.prems"(1) simps show ?thesis by simp
    next
      case (Inr res)
      obtain S1 f where res: "res = (S1, f)" by (cases res)
      note wS = Inr [unfolded res]
      show ?thesis
      proof (cases "shuffleShard_walk r lp lu tokens ?p 0 S'")
        case (Inl e)
        with True' "1.prems"(2) simps' show ?thesis by simp
      next
        case Inr': (Inr res')
        obtain S1' f' where res': "res' = (S1', f')" by (cases res')
        note wS' = Inr' [unfolded res']
        from walk_mono [OF wS wS' "1.prems"(4)]
        have m: "shard_ids S1 \<subseteq> shard_ids S1'" and ff: "f' \<longrightarrow> f" by simp_all
        show ?thesis
        proof (cases f)
          case False
          with True wS "1.prems"(1) simps have T: "T = S1" by simp
          from False ff have "\<not> f'" by simp
          with True' wS' "1.prems"(2) simps' have "T' = S1'" by simp
          with T m show ?thesis by simp
        next
          case f: True
          with True wS "1.prems"(1) simps
          have zT: "shuffleShard_zone draw r ident lp lu zone tokens n (i + 1) S1 = Inr T" by simp
          show ?thesis
          proof (cases f')
            case True
            with True' wS' "1.prems"(2) simps'
            have zT': "shuffleShard_zone draw r ident lp lu zone tokens n' (i + 1) S1' = Inr T'" by simp
            from "1.IH" [OF \<open>int i < n\<close> refl wS refl] f zT zT' "1.prems"(3) m
            show ?thesis by simp
          next
            case False
            with True' wS' "1.prems"(2) simps' have T': "T' = S1'" by simp
            from False wS' have "shuffleShard_walk r lp lu tokens ?p 0 S' = Inr (S1', False)" by simp
            from walk_not_found_all [OF this] have all: "zone_ids r tokens \<subseteq> shard_ids S1'" .
            from zone_bounds [OF zT] have "shard_ids T \<subseteq> shard_ids S1 \<union> zone_ids r tokens" by simp
            with m all T' show ?thesis by blast
          qed
        qed
      qed
    qed
  qed
qed

lemma zone_tokens_subset: "set (zone_tokens r zone) \<subseteq> set (all_tokens r)"
proof (cases "ZoneAwarenessEnabled (cfg r)")
  case False
  then show ?thesis by (simp add: zone_tokens_def all_tokens_def)
next
  case True
  show ?thesis
  proof (cases "map_of (ringTokensByZone r) zone")
    case None
    with True show ?thesis by (simp add: zone_tokens_def)
  next
    case (Some ts)
    then have "(zone, ts) \<in> set (ringTokensByZone r)" by (rule map_of_SomeD)
    then have "ts \<in> snd ` set (ringTokensByZone r)" by force
    with True Some show ?thesis by (auto simp: zone_tokens_def all_tokens_def)
  qed
qed

lemma zone_ids_mono: "set ts \<subseteq> set ts' \<Longrightarrow> zone_ids r ts \<subseteq> zone_ids r ts'"
  unfolding zone_ids_def by blast

lemma zones_step:
  "shuffleShard_zones draw r ident lp lu q w (zone # zs) S =
     (case shuffleShard_zone draw r ident lp lu zone (zone_tokens r zone)
             (if w > 0 then q + 1 else q) 0 S of
        Inl e \<Rightarrow> Inl e
      | Inr S1 \<Rightarrow> shuffleShard_zones draw r ident lp lu q (if w > 0 then w - 1 else w) zs S1)"
  by (simp add: Let_def zone_tokens_def)

lemma zones_bounds:
  fixes r :: "'a Ring_scheme"
  assumes "shuffleShard_zones draw r ident lp lu q w zs S = Inr T"
  shows "shard_ids S \<subseteq> shard_ids T
       \<and> shard_ids T \<subseteq> shard_ids S \<union> zone_ids r (all_tokens r)
       \<and> (shard_of r S \<longrightarrow> shard_of r T)"
  using assms
proof (induction zs arbitrary: w S)
  case Nil
  then show ?case by simp
next
  case (Cons zone zs)
  let ?n = "if w > 0 then q + 1 else q"
  let ?w = "if w > 0 then w - 1 else w"
  show ?case
  proof (cases "shuffleShard_zone draw r ident lp lu zone (zone_tokens r zone) ?n 0 S")
    case (Inl e)
    with Cons.prems show ?thesis by (simp only: zones_step sum.case) simp
  next
    case (Inr S1)
    with Cons.prems have "shuffleShard_zones draw r ident lp lu q ?w zs S1 = Inr T"
      by (simp only: zones_step sum.case)
    note ih = Cons.IH [OF this]
    note b = zone_bounds [OF Inr]
    note z = zone_ids_mono [OF zone_tokens_subset [of r zone], of r]
    from ih b z show ?thesis by blast
  qed
qed

lemma sizes_le_step:
  assumes "sizes_le q w q' w'"
  shows "(if w > 0 then q + 1 else q) \<le> (if w' > 0 then q' + 1 else q')"
    and "sizes_le q (if w > 0 then w - 1 else w) q' (if w' > 0 then w' - 1 else w')"
  using assms unfolding sizes_le_def by (auto split: if_splits)

lemma zones_mono:
  fixes r :: "'a Ring_scheme"
  assumes "shuffleShard_zones draw r ident lp lu q w zs S = Inr T"
    and "shuffleShard_zones draw r ident lp lu q' w' zs S' = Inr T'"
    and "sizes_le q w q' w'"
    and "shard_ids S \<subseteq> shard_ids S'"
  shows "shard_ids T \<subseteq> shard_ids T'"
  using assms
proof (induction zs arbitrary: w w' S S')
  case Nil
  then show ?case by simp
next
  case (Cons zone zs)
  let ?n = "if w > 0 then q + 1 else q"
  let ?w = "if w > 0 then w - 1 else w"
  let ?n' = "if w' > 0 then q' + 1 else q'"
  let ?w' = "if w' > 0 then w' - 1 else w'"
  note st = sizes_le_step [OF Cons.prems(3)]
  show ?case
  proof (cases "shuffleShard_zone draw r ident lp lu zone (zone_tokens r zone) ?n 0 S")
    case (Inl e)
    with Cons.prems(1) show ?thesis by (simp only: zones_step sum.case) simp
  next
    case (Inr S1)
    with Cons.prems(1) have T: "shuffleShard_zones draw r ident lp lu q ?w zs S1 = Inr T"
      by (simp only: zones_step sum.case)
    show ?thesis
    proof (cases "shuffleShard_zone draw r ident lp lu zone (zone_tokens r zone) ?n' 0 S'")
      case (Inl e)
      with Cons.prems(2) show ?thesis by (simp only: zones_step sum.case) simp
    next
      case Inr': (Inr S1')
      with Cons.prems(2) have T': "shuffleShard_zones draw r ident lp lu q' ?w' zs S1' = Inr T'"
        by (simp only: zones_step sum.case)
      from zone_mono [OF Inr Inr' st(1) Cons.prems(4)]
      have "shard_ids S1 \<subseteq> shard_ids S1'" .
      from Cons.IH [OF T T' st(2) this] show ?thesis .
    qed
  qed
qed

lemma ceiling_div_mono:
  assumes "s1 \<le> s2"
  shows "ShuffleShardExpectedInstancesPerZone s1 (int n) \<le> ShuffleShardExpectedInstancesPerZone s2 (int n)"
  unfolding ShuffleShardExpectedInstancesPerZone_def
  using assms by (intro ceiling_mono divide_right_mono) simp_all

lemma sizes_le_stable:
  assumes "0 < s1" and "s1 \<le> s2" and "0 < n"
  shows "sizes_le (s1 sdiv int n) (s1 smod int n) (s2 sdiv int n) (s2 smod int n)"
proof -
  have n: "0 < int n" using assms by simp
  have d: "s1 sdiv int n = s1 div int n" "s2 sdiv int n = s2 div int n"
    "s1 smod int n = s1 mod int n" "s2 smod int n = s2 mod int n"
    using assms n by (simp_all add: signed_divide_int_def signed_modulo_int_def sgn_if)
  have le: "s1 div int n \<le> s2 div int n" using assms n by (intro zdiv_mono1) simp_all
  have m: "0 \<le> s2 mod int n" using n by simp
  show ?thesis
  proof (cases "s1 div int n = s2 div int n")
    case True
    have "s1 = int n * (s1 div int n) + s1 mod int n" by simp
    moreover have "s2 = int n * (s2 div int n) + s2 mod int n" by simp
    ultimately have "s1 mod int n \<le> s2 mod int n" using True assms(2) by (metis add_le_cancel_left)
    with True show ?thesis unfolding sizes_le_def d by simp
  next
    case False
    with le m show ?thesis unfolding sizes_le_def d by simp
  qed
qed

lemma sizes_le_plain: "q \<le> q' \<Longrightarrow> sizes_le q 0 q' 0"
  unfolding sizes_le_def by auto

lemma shuffleShard_unfold:
  fixes r :: "'a Ring_scheme"
  shows "shuffleShard draw r ident s lp now zs =
    (if ZoneAwarenessEnabled (cfg r) \<and> zs \<and> ringZones r = [] then Inl Panic
     else case shuffleShard_zones draw r ident lp ((now - lp) div 1000000000)
       (if ZoneAwarenessEnabled (cfg r)
        then (if zs then s sdiv int (length (ringZones r))
              else ShuffleShardExpectedInstancesPerZone s (int (length (ringZones r))))
        else s)
       (if ZoneAwarenessEnabled (cfg r) \<and> zs then s smod int (length (ringZones r)) else 0)
       (if ZoneAwarenessEnabled (cfg r) then ringZones r else [[]]) [] of
         Inl e \<Rightarrow> Inl e
       | Inr shard \<Rightarrow>
           Inr \<lparr>cfg = cfg r,
                ringDesc = Some \<lparr>Ingesters = shard\<rparr>,
                ringTokens = GetTokens \<lparr>Ingesters = shard\<rparr>,
                ringTokensByZone = getTokensByZone \<lparr>Ingesters = shard\<rparr>,
                ringInstanceByToken = ringInstanceByToken r,
                ringInstanceIdByAddr = Map.empty,
                lastTopologyChange = lastTopologyChange r,
                ringZones = getZones (getTokensByZone \<lparr>Ingesters = shard\<rparr>),
                previousRingZones = []\<rparr>)"
proof (cases "ZoneAwarenessEnabled (cfg r)")
  case False
  then show ?thesis
    by (simp add: shuffleShard_def Let_def split: sum.splits del: shuffleShard_zones.simps)
next
  case za: True
  show ?thesis
  proof (cases zs)
    case True
    with za show ?thesis
      by (simp add: shuffleShard_def Let_def split: sum.splits del: shuffleShard_zones.simps)
  next
    case False
    with za show ?thesis
      by (simp add: shuffleShard_def Let_def split: sum.splits del: shuffleShard_zones.simps)
  qed
qed

lemma shuffleShard_shard:
  fixes r :: "'a Ring_scheme"
  assumes "shuffleShard draw r ident s lp now zs = Inr sub"
  obtains shard where
    "shuffleShard_zones draw r ident lp ((now - lp) div 1000000000)
       (if ZoneAwarenessEnabled (cfg r)
        then (if zs then s sdiv int (length (ringZones r))
              else ShuffleShardExpectedInstancesPerZone s (int (length (ringZones r))))
        else s)
       (if ZoneAwarenessEnabled (cfg r) \<and> zs then s smod int (length (ringZones r)) else 0)
       (if ZoneAwarenessEnabled (cfg r) then ringZones r else [[]]) [] = Inr shard"
    and "ringDesc sub = Some \<lparr>Ingesters = shard\<rparr>"
    and "ZoneAwarenessEnabled (cfg r) \<and> zs \<longrightarrow> ringZones r \<noteq> []"
proof -
  let ?Z = "shuffleShard_zones draw r ident lp ((now - lp) div 1000000000)
       (if ZoneAwarenessEnabled (cfg r)
        then (if zs then s sdiv int (length (ringZones r))
              else ShuffleShardExpectedInstancesPerZone s (int (length (ringZones r))))
        else s)
       (if ZoneAwarenessEnabled (cfg r) \<and> zs then s smod int (length (ringZones r)) else 0)
       (if ZoneAwarenessEnabled (cfg r) then ringZones r else [[]]) []"
  note u = assms [unfolded shuffleShard_unfold]
  from u have nz: "ZoneAwarenessEnabled (cfg r) \<and> zs \<longrightarrow> ringZones r \<noteq> []"
    by (auto split: if_splits)
  show ?thesis
  proof (cases ?Z)
    case (Inl e)
    with u show ?thesis by (simp split: if_splits)
  next
    case (Inr shard)
    with u nz have d: "ringDesc sub = Some \<lparr>Ingesters = shard\<rparr>"
      by (auto split: if_splits)
    from Inr d nz show ?thesis by (rule that)
  qed
qed

lemma shard_subset:
  assumes "shard_ids T \<subseteq> shard_ids T'" and "shard_of r T" and "shard_of r T'"
  shows "set T \<subseteq> set T'"
proof
  fix x assume x: "x \<in> set T"
  obtain k i where ki: "x = (k, i)" by (cases x)
  from x ki assms(2) have i: "i = ingester (the (ringDesc r)) k" by (auto simp: shard_of_def)
  from x ki have "k \<in> shard_ids T" unfolding shard_ids_def by force
  with assms(1) have "k \<in> shard_ids T'" by blast
  then obtain i' where i': "(k, i') \<in> set T'" unfolding shard_ids_def by auto
  with assms(3) have "i' = ingester (the (ringDesc r)) k" by (auto simp: shard_of_def)
  with i i' ki show "x \<in> set T'" by simp
qed

lemma shard_of_Nil: "shard_of r []"
  by (simp add: shard_of_def)

lemma shuffleShard_mono:
  fixes r :: "'a Ring_scheme"
  assumes "0 < s1" and "s1 \<le> s2"
    and "shuffleShard draw r ident s1 lp now zs = Inr sub1"
    and "shuffleShard draw r ident s2 lp now zs = Inr sub2"
  shows "set (Ingesters (the (ringDesc sub1))) \<subseteq> set (Ingesters (the (ringDesc sub2)))"
proof -
  from assms(3) obtain T where T: "shuffleShard_zones draw r ident lp ((now - lp) div 1000000000)
       (if ZoneAwarenessEnabled (cfg r)
        then (if zs then s1 sdiv int (length (ringZones r))
              else ShuffleShardExpectedInstancesPerZone s1 (int (length (ringZones r))))
        else s1)
       (if ZoneAwarenessEnabled (cfg r) \<and> zs then s1 smod int (length (ringZones r)) else 0)
       (if ZoneAwarenessEnabled (cfg r) then ringZones r else [[]]) [] = Inr T"
    and d1: "ringDesc sub1 = Some \<lparr>Ingesters = T\<rparr>"
    and nz: "ZoneAwarenessEnabled (cfg r) \<and> zs \<longrightarrow> ringZones r \<noteq> []"
    by (rule shuffleShard_shard)
  from assms(4) obtain T' where T': "shuffleShard_zones draw r ident lp ((now - lp) div 1000000000)
       (if ZoneAwarenessEnabled (cfg r)
        then (if zs then s2 sdiv int (length (ringZones r))
              else ShuffleShardExpectedInstancesPerZone s2 (int (length (ringZones r))))
        else s2)
       (if ZoneAwarenessEnabled (cfg r) \<and> zs then s2 smod int (length (ringZones r)) else 0)
       (if ZoneAwarenessEnabled (cfg r) then ringZones r else [[]]) [] = Inr T'"
    and d2: "ringDesc sub2 = Some \<lparr>Ingesters = T'\<rparr>"
    by (rule shuffleShard_shard)
  have le: "sizes_le
       (if ZoneAwarenessEnabled (cfg r)
        then (if zs then s1 sdiv int (length (ringZones r))
              else ShuffleShardExpectedInstancesPerZone s1 (int (length (ringZones r))))
        else s1)
       (if ZoneAwarenessEnabled (cfg r) \<and> zs then s1 smod int (length (ringZones r)) else 0)
       (if ZoneAwarenessEnabled (cfg r)
        then (if zs then s2 sdiv int (length (ringZones r))
              else ShuffleShardExpectedInstancesPerZone s2 (int (length (ringZones r))))
        else s2)
       (if ZoneAwarenessEnabled (cfg r) \<and> zs then s2 smod int (length (ringZones r)) else 0)"
  proof (cases "ZoneAwarenessEnabled (cfg r)")
    case False
    with sizes_le_plain [OF assms(2)] show ?thesis by simp
  next
    case za: True
    show ?thesis
    proof (cases zs)
      case True
      with za nz have "0 < length (ringZones r)" by simp
      from sizes_le_stable [OF assms(1,2) this] za True show ?thesis by simp
    next
      case False
      with za sizes_le_plain [OF ceiling_div_mono [OF assms(2), of "length (ringZones r)"]]
      show ?thesis by simp
    qed
  qed
  from zones_mono [OF T T' le] have ids: "shard_ids T \<subseteq> shard_ids T'" by simp
  from zones_bounds [OF T] have o1: "shard_of r T" by (simp add: shard_of_Nil)
  from zones_bounds [OF T'] have o2: "shard_of r T'" by (simp add: shard_of_Nil)
  from shard_subset [OF ids o1 o2] d1 d2 show ?thesis by simp
qed

lemma shuffleShard_in_desc:
  fixes r :: "'a Ring_scheme"
  assumes "owners_in_desc r" and "ringDesc r = Some d"
    and "shuffleShard draw r ident s lp now zs = Inr sub"
  shows "set (Ingesters (the (ringDesc sub))) \<subseteq> set (Ingesters d)"
proof -
  from assms(3) obtain T where T: "shuffleShard_zones draw r ident lp ((now - lp) div 1000000000)
       (if ZoneAwarenessEnabled (cfg r)
        then (if zs then s sdiv int (length (ringZones r))
              else ShuffleShardExpectedInstancesPerZone s (int (length (ringZones r))))
        else s)
       (if ZoneAwarenessEnabled (cfg r) \<and> zs then s smod int (length (ringZones r)) else 0)
       (if ZoneAwarenessEnabled (cfg r) then ringZones r else [[]]) [] = Inr T"
    and d1: "ringDesc sub = Some \<lparr>Ingesters = T\<rparr>"
    by (rule shuffleShard_shard)
  from zones_bounds [OF T] have ids: "shard_ids T \<subseteq> zone_ids r (all_tokens r)"
    and o: "shard_of r T" by (simp_all add: shard_of_Nil)
  have "set T \<subseteq> set (Ingesters d)"
  proof
    fix x assume x: "x \<in> set T"
    obtain k i where ki: "x = (k, i)" by (cases x)
    from x ki o assms(2) have i: "i = ingester d k" by (auto simp: shard_of_def)
    from x ki have "k \<in> shard_ids T" unfolding shard_ids_def by force
    with ids have "k \<in> zone_ids r (all_tokens r)" by blast
    then obtain t info where t: "t \<in> set (all_tokens r)"
      and info: "ringInstanceByToken r t = Some info" and k: "k = InstanceID info"
      unfolding zone_ids_def by auto
    from assms(1) t info assms(2) k have "map_of (Ingesters d) k \<noteq> None"
      unfolding owners_in_desc_def by force
    then obtain i' where i': "map_of (Ingesters d) k = Some i'" by auto
    then have "(k, i') \<in> set (Ingesters d)" by (rule map_of_SomeD)
    moreover from i i' have "i = i'" by (simp add: ingester_def)
    ultimately show "x \<in> set (Ingesters d)" using ki by simp
  qed
  with d1 show ?thesis by simp
qed

lemma shuffleShardWithCache_mono:
  assumes "0 < s1" and "s1 < s2"
    and "owners_in_desc r"
    and "getCachedShuffledSubring r ident s1 zs = Inr (None, r)"
    and "getCachedShuffledSubring r ident s2 zs = Inr (None, r)"
    and "shuffleShardWithCache draw now1 r ident s1 zs = Inr (sub1, r1)"
    and "shuffleShardWithCache draw now2 r ident s2 zs = Inr (sub2, r2)"
  shows "set (Ingesters (the (ringDesc sub1))) \<subseteq> set (Ingesters (the (ringDesc sub2)))"
proof -
  from assms(1,2) have s2: "0 < s2" by simp
  from assms(1,6) obtain count where c: "InstancesCount r = Inr count"
    by (cases "InstancesCount r") (auto simp: shuffleShardWithCache_def)
  then obtain d where d: "ringDesc r = Some d"
    by (cases "ringDesc r") (auto simp: InstancesCount_def)
  have tr: "ringDesc (Ring.truncate r) = ringDesc r"
    by (simp add: Ring.truncate_def)
  show ?thesis
  proof (cases "count \<le> s1")
    case True
    with assms(1,2,6,7) c s2 have "sub1 = Ring.truncate r" "sub2 = Ring.truncate r"
      by (auto simp: shuffleShardWithCache_def)
    then show ?thesis by simp
  next
    case n1: False
    with assms(1,4,6) c have 1: "shuffleShard draw r ident s1 0 now1 zs = Inr sub1"
      by (auto simp: shuffleShardWithCache_def split: sum.splits)
    show ?thesis
    proof (cases "count \<le> s2")
      case True
      with assms(7) c s2 have "sub2 = Ring.truncate r"
        by (auto simp: shuffleShardWithCache_def)
      with shuffleShard_in_desc [OF assms(3) d 1] tr d show ?thesis by simp
    next
      case False
      with assms(5,7) c s2 have "shuffleShard draw r ident s2 0 now2 zs = Inr sub2"
        by (auto simp: shuffleShardWithCache_def split: sum.splits)
      then have 2: "shuffleShard draw r ident s2 0 now1 zs = Inr sub2"
        by (simp only: shuffleShard_no_lookback [of draw r ident s2 now2 zs now1])
      from assms(2) have "s1 \<le> s2" by simp
      from shuffleShard_mono [OF assms(1) this 1 2] show ?thesis .
    qed
  qed
qed






lemma owners_in_desc_cong:
  fixes r :: "'a Ring_scheme" and r' :: "'b Ring_scheme"
  assumes "Ring.truncate r' = Ring.truncate r"
  shows "owners_in_desc r' = owners_in_desc r"
proof -
  from assms have e: "ringInstanceByToken r' = ringInstanceByToken r" "ringDesc r' = ringDesc r"
    "ringTokens r' = ringTokens r" "ringTokensByZone r' = ringTokensByZone r"
    by (simp_all add: Ring.truncate_def)
  show ?thesis unfolding owners_in_desc_def all_tokens_def e ..
qed

















end
